theory Spec2Isabelle
  imports Main "HOL-Library.Word"
begin

unbundle bit_operations_syntax

section \<open>Common types\<close>

text \<open>Run-time panics of Go that the modelled code can raise.\<close>

datatype panic =
    TypeAssertion        \<comment> \<open>\<open>x.(T)\<close> without \<open>ok\<close> on a value that does not implement \<open>T\<close>\<close>
  | SliceBounds          \<comment> \<open>\<open>s[lo:hi]\<close> with \<open>hi > len(s)\<close> or \<open>lo > hi\<close>\<close>
  | IndexRange           \<comment> \<open>\<open>s[i]\<close> with \<open>i \<ge> len(s)\<close>\<close>
  | NilDereference       \<comment> \<open>field or method access through a nil pointer\<close>

type_synonym error = string
type_synonym byte = "8 word"
type_synonym http_Header = "string \<rightharpoonup> string list"

section \<open>The response writer wrapper (response_writer.go)\<close>

subsection \<open>The underlying \<open>http.ResponseWriter\<close>\<close>

text \<open>
  An \<open>http.ResponseWriter\<close> value is an object of some dynamic type: a state and the
  methods of that type. \<open>Header\<close>, \<open>Write\<close> and \<open>WriteHeader\<close> are always there; the
  methods of the four optional interfaces are there or not (\<open>None\<close>: the dynamic type has
  no such method). \<open>Write\<close> reports how many bytes it accepted (a Go \<open>int\<close>) and an
  error or nil.
\<close>

type_synonym conn = nat

record 's sink =
  sink_state :: 's
  sink_Header :: "'s \<Rightarrow> http_Header"
  sink_Write :: "'s \<Rightarrow> byte list \<Rightarrow> (int \<times> error option) \<times> 's"
  sink_WriteHeader :: "'s \<Rightarrow> int \<Rightarrow> 's"
  sink_CloseNotify :: "('s \<Rightarrow> 's) option"
  sink_Flush :: "('s \<Rightarrow> 's) option"
  sink_Hijack :: "('s \<Rightarrow> (conn option \<times> error option) \<times> 's) option"
  sink_Push :: "('s \<Rightarrow> string \<Rightarrow> error option \<times> 's) option"

datatype iface = CloseNotifier | Flusher | Hijacker | Pusher

text \<open>\<open>_, ok := rw.(http.I)\<close> on the underlying writer.\<close>

fun implements :: "'s sink \<Rightarrow> iface \<Rightarrow> bool" where
  "implements rw CloseNotifier = (sink_CloseNotify rw \<noteq> None)"
| "implements rw Flusher = (sink_Flush rw \<noteq> None)"
| "implements rw Hijacker = (sink_Hijack rw \<noteq> None)"
| "implements rw Pusher = (sink_Push rw \<noteq> None)"

subsection \<open>The wrapper types and their method sets\<close>

record 's responseWriter =
  responseWriter :: "'s sink"
  status :: int
  size_f :: "64 word"
  hijacked :: bool

text \<open>
  The sixteen concrete types the dispatch table builds: \<open>ptr_responseWriter\<close> is
  \<open>*responseWriter\<close>, each other one a struct that embeds \<open>*responseWriter\<close>.
\<close>

datatype shape =
    ptr_responseWriter
  | responseWriterCloseNotifier
  | responseWriterFlusher
  | responseWriterCloseNotifierFlusher
  | responseWriterHijacker
  | responseWriterCloseNotifierHijacker
  | responseWriterFlusherHijacker
  | responseWriterCloseNotifierFlusherHijacker
  | responseWriterPusher
  | responseWriterCloseNotifierPusher
  | responseWriterFlusherPusher
  | responseWriterCloseNotifierFlusherPusher
  | responseWriterHijackerPusher
  | responseWriterCloseNotifierHijackerPusher
  | responseWriterFlusherHijackerPusher
  | responseWriterCloseNotifierFlusherHijackerPusher

datatype method_name =
    M_Header | M_Write | M_WriteHeader | M_Status | M_Size | M_Hijacked
  | M_CloseNotify | M_Flush | M_Hijack | M_Push

text \<open>The methods of \<open>*responseWriter\<close>; every shape has them (by embedding).\<close>

definition promoted :: "method_name list" where
  "promoted = [M_Write, M_WriteHeader, M_Header, M_Status, M_Size, M_Hijacked]"

text \<open>
  Every method declaration \<open>func (r T) M(...)\<close> of the file with a struct receiver, in the
  order of the file: the receiver type and the method's name.
\<close>

definition declared :: "(shape \<times> method_name) list" where
  "declared =
    [(responseWriterCloseNotifier, M_CloseNotify),
     (responseWriterFlusher, M_Flush),
     (responseWriterCloseNotifierFlusher, M_CloseNotify),
     (responseWriterCloseNotifierFlusher, M_Flush),
     (responseWriterHijacker, M_Hijack),
     (responseWriterCloseNotifierHijacker, M_CloseNotify),
     (responseWriterCloseNotifierHijacker, M_Hijack),
     (responseWriterFlusherHijacker, M_Flush),
     (responseWriterFlusherHijacker, M_Hijack),
     (responseWriterCloseNotifierFlusherHijacker, M_CloseNotify),
     (responseWriterCloseNotifierFlusherHijacker, M_Flush),
     (responseWriterCloseNotifierFlusherHijacker, M_Hijack),
     (responseWriterPusher, M_Push),
     (responseWriterCloseNotifierPusher, M_CloseNotify),
     (responseWriterCloseNotifierPusher, M_Push),
     (responseWriterFlusherPusher, M_Flush),
     (responseWriterFlusherPusher, M_Push),
     (responseWriterCloseNotifierFlusherPusher, M_CloseNotify),
     (responseWriterCloseNotifierFlusherPusher, M_Flush),
     (responseWriterCloseNotifierFlusherHijacker, M_Push),
     (responseWriterHijackerPusher, M_Hijack),
     (responseWriterHijackerPusher, M_Push),
     (responseWriterCloseNotifierHijackerPusher, M_CloseNotify),
     (responseWriterCloseNotifierHijackerPusher, M_Hijack),
     (responseWriterCloseNotifierHijackerPusher, M_Push),
     (responseWriterFlusherHijackerPusher, M_Flush),
     (responseWriterFlusherHijackerPusher, M_Hijack),
     (responseWriterFlusherHijackerPusher, M_Push),
     (responseWriterCloseNotifierFlusherHijackerPusher, M_CloseNotify),
     (responseWriterCloseNotifierFlusherHijackerPusher, M_Flush),
     (responseWriterCloseNotifierFlusherHijackerPusher, M_Hijack),
     (responseWriterCloseNotifierFlusherHijackerPusher, M_Push)]"

definition has_method :: "shape \<Rightarrow> method_name \<Rightarrow> bool" where
  "has_method sh m = (m \<in> set promoted \<or> (sh, m) \<in> set declared)"

text \<open>A wrapper: its concrete type and the \<open>responseWriter\<close> it points to.\<close>

record 's ResponseWriter =
  shape :: shape
  embedded :: "'s responseWriter"

fun iface_method :: "iface \<Rightarrow> method_name" where
  "iface_method CloseNotifier = M_CloseNotify"
| "iface_method Flusher = M_Flush"
| "iface_method Hijacker = M_Hijack"
| "iface_method Pusher = M_Push"

text \<open>\<open>_, ok := w.(http.I)\<close> on a wrapper: its type has the interface's method.\<close>

definition exposes :: "'s ResponseWriter \<Rightarrow> iface \<Rightarrow> bool" where
  "exposes w I = has_method (shape w) (iface_method I)"

subsection \<open>\<open>WrapResponseWriter\<close> and the dispatch table\<close>

definition closeNotifier :: nat where "closeNotifier = push_bit 0 1"
definition flusher :: nat where "flusher = push_bit 1 1"
definition hijacker :: nat where "hijacker = push_bit 2 1"
definition pusher :: nat where "pusher = push_bit 3 1"

definition new_responseWriter :: "'s sink \<Rightarrow> 's responseWriter" where
  "new_responseWriter rw = \<lparr>responseWriter = rw, status = 0, size_f = 0, hijacked = False\<rparr>"

definition build :: "shape \<Rightarrow> 's sink \<Rightarrow> 's ResponseWriter" where
  "build sh rw = \<lparr>shape = sh, embedded = new_responseWriter rw\<rparr>"

definition types :: "('s sink \<Rightarrow> 's ResponseWriter) list" where
  "types =
    [build ptr_responseWriter,
     build responseWriterCloseNotifier,
     build responseWriterFlusher,
     build responseWriterCloseNotifierFlusher,
     build responseWriterHijacker,
     build responseWriterCloseNotifierHijacker,
     build responseWriterFlusherHijacker,
     build responseWriterCloseNotifierFlusherHijacker,
     build responseWriterPusher,
     build responseWriterCloseNotifierPusher,
     build responseWriterFlusherPusher,
     build responseWriterCloseNotifierFlusherPusher,
     build responseWriterHijackerPusher,
     build responseWriterCloseNotifierHijackerPusher,
     build responseWriterFlusherHijackerPusher,
     build responseWriterCloseNotifierFlusherHijackerPusher]"

definition wrap_index :: "'s sink \<Rightarrow> nat" where
  "wrap_index rw =
    (let i = 0;
         i = (if implements rw CloseNotifier then i OR closeNotifier else i);
         i = (if implements rw Flusher then i OR flusher else i);
         i = (if implements rw Hijacker then i OR hijacker else i);
         i = (if implements rw Pusher then i OR pusher else i)
     in i)"

definition WrapResponseWriter :: "'s sink \<Rightarrow> 's ResponseWriter" where
  "WrapResponseWriter rw = (types ! wrap_index rw) rw"

subsection \<open>The methods\<close>

definition responseWriter_Write ::
  "'s responseWriter \<Rightarrow> byte list \<Rightarrow> (int \<times> error option) \<times> 's responseWriter" where
  "responseWriter_Write r p =
    (let u = responseWriter r;
         ((n, err), s') = sink_Write u (sink_state u) p
     in ((n, err),
         r\<lparr>responseWriter := u\<lparr>sink_state := s'\<rparr>, size_f := size_f r + word_of_int n\<rparr>))"

definition responseWriter_WriteHeader :: "'s responseWriter \<Rightarrow> int \<Rightarrow> 's responseWriter" where
  "responseWriter_WriteHeader r statusCode =
    (let r1 = r\<lparr>status := statusCode\<rparr>;
         u = responseWriter r1
     in r1\<lparr>responseWriter := u\<lparr>sink_state := sink_WriteHeader u (sink_state u) statusCode\<rparr>\<rparr>)"

definition responseWriter_Status :: "'s responseWriter \<Rightarrow> int" where
  "responseWriter_Status r = (if status r = 0 then 200 else status r)"

definition responseWriter_Size :: "'s responseWriter \<Rightarrow> 64 word" where
  "responseWriter_Size r = size_f r"

definition responseWriter_Hijacked :: "'s responseWriter \<Rightarrow> bool" where
  "responseWriter_Hijacked r = hijacked r"

text \<open>
  The body every \<open>Hijack\<close> method of the file has: set the flag, assert that the
  underlying writer is an \<open>http.Hijacker\<close> (a panic when it is not), call it. The flag is
  written through the pointer, so it stays set whatever happens next.
\<close>

definition Hijack_body ::
  "'s responseWriter \<Rightarrow> (panic + conn option \<times> error option) \<times> 's responseWriter" where
  "Hijack_body r =
    (let r1 = r\<lparr>hijacked := True\<rparr>;
         u = responseWriter r1
     in case sink_Hijack u of
          None \<Rightarrow> (Inl TypeAssertion, r1)
        | Some h \<Rightarrow>
            (let (res, s') = h (sink_state u)
             in (Inr res, r1\<lparr>responseWriter := u\<lparr>sink_state := s'\<rparr>\<rparr>)))"

text \<open>The methods of a wrapper, through its \<open>ResponseWriter\<close> interface value.\<close>

definition Write ::
  "'s ResponseWriter \<Rightarrow> byte list \<Rightarrow> (int \<times> error option) \<times> 's ResponseWriter" where
  "Write w p = (let (res, r') = responseWriter_Write (embedded w) p in (res, w\<lparr>embedded := r'\<rparr>))"

definition WriteHeader :: "'s ResponseWriter \<Rightarrow> int \<Rightarrow> 's ResponseWriter" where
  "WriteHeader w statusCode = w\<lparr>embedded := responseWriter_WriteHeader (embedded w) statusCode\<rparr>"

definition Status :: "'s ResponseWriter \<Rightarrow> int" where
  "Status w = responseWriter_Status (embedded w)"

definition Size :: "'s ResponseWriter \<Rightarrow> 64 word" where
  "Size w = responseWriter_Size (embedded w)"

definition Hijacked :: "'s ResponseWriter \<Rightarrow> bool" where
  "Hijacked w = responseWriter_Hijacked (embedded w)"

text \<open>
  \<open>w.(http.Hijacker).Hijack()\<close>: \<open>None\<close> when the wrapper's type declares no \<open>Hijack\<close>
  (the call cannot be written), else the outcome and the wrapper afterwards.
\<close>

definition Hijack ::
  "'s ResponseWriter \<Rightarrow> ((panic + conn option \<times> error option) \<times> 's ResponseWriter) option" where
  "Hijack w =
    (if (shape w, M_Hijack) \<in> set declared
     then (let (res, r') = Hijack_body (embedded w) in Some (res, w\<lparr>embedded := r'\<rparr>))
     else None)"

text \<open>A handler's calls, one after the other.\<close>

fun WriteHeaders :: "'s ResponseWriter \<Rightarrow> int list \<Rightarrow> 's ResponseWriter" where
  "WriteHeaders w [] = w"
| "WriteHeaders w (c # cs) = WriteHeaders (WriteHeader w c) cs"

fun Writes ::
  "'s ResponseWriter \<Rightarrow> byte list list \<Rightarrow> (int \<times> error option) list \<times> 's ResponseWriter" where
  "Writes w [] = ([], w)"
| "Writes w (p # ps) =
    (let (res, w1) = Write w p; (rs, w2) = Writes w1 ps in (res # rs, w2))"

text \<open>
  What the underlying writer itself reports when it is given the writes \<open>ps\<close> one after
  the other: the results of its own \<open>Write\<close>, from its own state.
\<close>

fun sink_reports :: "'s sink \<Rightarrow> byte list list \<Rightarrow> (int \<times> error option) list" where
  "sink_reports u [] = []"
| "sink_reports u (p # ps) =
    (let (res, s') = sink_Write u (sink_state u) p
     in res # sink_reports (u\<lparr>sink_state := s'\<rparr>) ps)"

text \<open>
  A writer to evaluate the wrapper on: it counts the bytes it was given, accepts at most
  \<open>cap\<close> bytes of each write (reporting a short write), keeps the status codes it
  was sent, and implements the optional interfaces listed in \<open>is\<close>; its \<open>Hijack\<close> fails.
\<close>

record recorder =
  codes :: "int list"
  written :: nat

definition recorder_sink :: "nat \<Rightarrow> iface list \<Rightarrow> recorder sink" where
  "recorder_sink cap is =
    \<lparr>sink_state = \<lparr>codes = [], written = 0\<rparr>,
     sink_Header = (\<lambda>s. Map.empty),
     sink_Write = (\<lambda>s p.
        if length p \<le> cap then ((int (length p), None), s\<lparr>written := written s + length p\<rparr>)
        else ((int cap, Some ''short write''), s\<lparr>written := written s + cap\<rparr>)),
     sink_WriteHeader = (\<lambda>s c. s\<lparr>codes := codes s @ [c]\<rparr>),
     sink_CloseNotify = (if CloseNotifier \<in> set is then Some (\<lambda>s. s) else None),
     sink_Flush = (if Flusher \<in> set is then Some (\<lambda>s. s) else None),
     sink_Hijack =
       (if Hijacker \<in> set is then Some (\<lambda>s. ((None, Some ''hijack failed''), s)) else None),
     sink_Push = (if Pusher \<in> set is then Some (\<lambda>s t. (None, s)) else None)\<rparr>"


section \<open>Strings, as the code reads them\<close>

text \<open>\<open>s[i]\<close>: a panic when the index is out of range.\<close>

definition index :: "string \<Rightarrow> nat \<Rightarrow> panic + char" where
  "index s i = (if i < length s then Inr (s ! i) else Inl IndexRange)"

text \<open>\<open>s[lo:hi]\<close>: a panic unless \<open>lo \<le> hi \<le> len(s)\<close>.\<close>

definition slice_of :: "string \<Rightarrow> nat \<Rightarrow> nat \<Rightarrow> panic + string" where
  "slice_of s lo hi =
    (if lo \<le> hi \<and> hi \<le> length s then Inr (take (hi - lo) (drop lo s)) else Inl SliceBounds)"

text \<open>
  The scanning loops \<open>for ; j < len(text) && !stop(text[j]); j++ {}\<close>: the index where
  the loop leaves \<open>j\<close>.
\<close>

function scan :: "(char \<Rightarrow> bool) \<Rightarrow> string \<Rightarrow> nat \<Rightarrow> nat" where
  "scan stop s j = (if j < length s \<and> \<not> stop (s ! j) then scan stop s (j + 1) else j)"
  by pat_completeness auto
termination
  by (relation "measure (\<lambda>(stop, s, j). length s - j)") auto

declare scan.simps [simp del]

text \<open>The fields of \<open>url.URL\<close> that the code reads.\<close>

record URL =
  Path :: string
  RawQuery :: string

text \<open>
  The functions of Go's library that the code calls and that are taken as they are:
  a parameter of the model. \<open>'t\<close> is \<open>time.Time\<close>.
\<close>

record 't lib =
  ToLower :: "string \<Rightarrow> string"                       \<comment> \<open>\<open>strings.ToLower\<close>\<close>
  TrimSpace :: "string \<Rightarrow> string"                     \<comment> \<open>\<open>strings.TrimSpace\<close>\<close>
  CanonicalHeaderKey :: "string \<Rightarrow> string"            \<comment> \<open>\<open>http.CanonicalHeaderKey\<close>\<close>
  URL_String :: "URL \<Rightarrow> string"                       \<comment> \<open>\<open>(*url.URL).String\<close>, on a non-nil URL\<close>
  Time_Format :: "'t \<Rightarrow> string \<Rightarrow> string"             \<comment> \<open>\<open>time.Time.Format\<close>: the time, the layout\<close>
  FormatFloat_div :: "64 word \<Rightarrow> 64 word \<Rightarrow> string"
    \<comment> \<open>\<open>strconv.FormatFloat(float64(d) / float64(unit), 'f', -1, 64)\<close>\<close>
  FormatFloat_Seconds :: "64 word \<Rightarrow> string"
    \<comment> \<open>\<open>strconv.FormatFloat(d.Seconds(), 'f', -1, 64)\<close>\<close>

section \<open>Requests (request.go)\<close>

datatype parse_error =
    EmptyAttributeName nat          \<comment> \<open>\<open>empty attribute name at %d\<close>\<close>
  | NoEqualsBeforeEnd               \<comment> \<open>\<open>no '=' before end of string\<close>\<close>
  | UnexpectedSemicolon nat         \<comment> \<open>\<open>found unexpected ';' at %d\<close>\<close>
  | TrailingDataAfterQuoted nat     \<comment> \<open>\<open>trailing data after quoted string at %d\<close>\<close>
  | EmptyAttributeValue nat         \<comment> \<open>\<open>empty attribute value at %d\<close>\<close>
  | TrailingSemicolon nat           \<comment> \<open>\<open>trailing ';' at %d\<close>\<close>

text \<open>
  One round of the loop of \<open>ParsePairs\<close>, from \<open>s\<close>: it panics, or returns an error,
  or stores a pair and goes on from a new \<open>s\<close>.
\<close>

datatype round = Panics panic | Returns parse_error | Stores nat string string

text \<open>
  The end of a round, after \<open>ns\<close>, \<open>ne\<close>, \<open>vs\<close>, \<open>ve\<close> and the next \<open>s\<close> are set: the two
  last checks, and the store of \<open>text[ns:ne]\<close> with \<open>text[vs:ve]\<close>.
\<close>

definition ParsePairs_store ::
  "'t lib \<Rightarrow> string \<Rightarrow> bool \<Rightarrow> nat \<Rightarrow> nat \<Rightarrow> nat \<Rightarrow> nat \<Rightarrow> nat \<Rightarrow> round" where
  "ParsePairs_store L text ci ns ne vs ve s =
    (if vs = ve then Returns (EmptyAttributeValue vs)
     else if s = length text then Returns (TrailingSemicolon s)
     else case slice_of text ns ne of
            Inl p \<Rightarrow> Panics p
          | Inr name \<Rightarrow>
             (case slice_of text vs ve of
                Inl p \<Rightarrow> Panics p
              | Inr val \<Rightarrow> Stores s (if ci then ToLower L name else name) val))"

text \<open>
  The round from its start. A byte read behind \<open>&&\<close> is read only when the bound before
  it holds, as in Go. In the quoted branch, \<open>vs, ve = vs+1, vs+2\<close> is a tuple assignment:
  both right-hand sides use the old \<open>vs\<close>, the index of the opening quote, so the search
  for the closing quote starts two bytes behind it.
\<close>

definition ParsePairs_round :: "'t lib \<Rightarrow> string \<Rightarrow> bool \<Rightarrow> nat \<Rightarrow> round" where
  "ParsePairs_round L text ci s =
    (let e = length text;
         ns = s;
         ne = scan (\<lambda>c. c = CHR ''='' \<or> c = CHR '';'') text s
     in if ne = ns then Returns (EmptyAttributeName ns)
        else if ne = e then Returns NoEqualsBeforeEnd
        else case index text ne of
               Inl p \<Rightarrow> Panics p
             | Inr c \<Rightarrow>
                if c = CHR '';'' then Returns (UnexpectedSemicolon ne)
                else
                  (let vs = ne + 1
                   in if vs < e \<and> text ! vs = CHR 0x22 then
                        (let ve = scan (\<lambda>c. c = CHR 0x22) text (vs + 2);
                             vs = vs + 1;
                             s = ve + 1
                         in if s < length text \<and> text ! s \<noteq> CHR '';''
                            then Returns (TrailingDataAfterQuoted s)
                            else ParsePairs_store L text ci ns ne vs ve (s + 1))
                      else
                        (let ve = scan (\<lambda>c. c = CHR '';'') text vs
                         in ParsePairs_store L text ci ns ne vs ve (ve + 1))))"

lemma scan_ge: "j \<le> scan stop s j"
  by (induction stop s j rule: scan.induct) (subst scan.simps, auto)

lemma ParsePairs_store_Stores:
  "ParsePairs_store L text ci ns ne vs ve s = Stores s' k v \<Longrightarrow> s' = s"
  by (auto simp: ParsePairs_store_def split: if_splits sum.splits)

lemma ParsePairs_round_Stores:
  assumes "ParsePairs_round L text ci s = Stores s' k v"
  shows "s < s'"
proof -
  let ?ne = "scan (\<lambda>c. c = CHR ''='' \<or> c = CHR '';'') text s"
  have 1: "s \<le> ?ne"
    by (rule scan_ge)
  have 2: "Suc (Suc (Suc ?ne)) \<le> scan (\<lambda>c. c = CHR 0x22) text (Suc (Suc (Suc ?ne)))"
    by (rule scan_ge)
  have 3: "Suc ?ne \<le> scan (\<lambda>c. c = CHR '';'') text (Suc ?ne)"
    by (rule scan_ge)
  from assms 1 2 3 show ?thesis
    by (auto simp: ParsePairs_round_def Let_def split: if_splits sum.splits
        dest!: ParsePairs_store_Stores)
qed

type_synonym pairs = "(string \<rightharpoonup> string) option"

function ParsePairs_loop ::
  "'t lib \<Rightarrow> string \<Rightarrow> bool \<Rightarrow> nat \<Rightarrow> pairs \<Rightarrow> panic + pairs \<times> parse_error option" where
  "ParsePairs_loop L text ci s pairs =
    (if s < length text then
       (case ParsePairs_round L text ci s of
          Panics p \<Rightarrow> Inl p
        | Returns err \<Rightarrow> Inr (None, Some err)
        | Stores s' k v \<Rightarrow>
            ParsePairs_loop L text ci s'
              (Some ((case pairs of None \<Rightarrow> Map.empty | Some m \<Rightarrow> m)(k \<mapsto> v))))
     else Inr (pairs, None))"
  by pat_completeness auto
termination
  by (relation "measure (\<lambda>(L, text, ci, s, pairs). length text - s)")
     (auto dest: ParsePairs_round_Stores)

declare ParsePairs_loop.simps [simp del]

definition ParsePairs :: "'t lib \<Rightarrow> string \<Rightarrow> bool \<Rightarrow> panic + pairs \<times> parse_error option" where
  "ParsePairs L text ci = ParsePairs_loop L text ci 0 None"

text \<open>\<open>pairs[key]\<close>, also on the nil map: the zero value when the key is not there.\<close>

definition lookup :: "pairs \<Rightarrow> string \<Rightarrow> string" where
  "lookup pairs key =
    (case pairs of None \<Rightarrow> '''' | Some m \<Rightarrow> (case m key of None \<Rightarrow> '''' | Some v \<Rightarrow> v))"

text \<open>\<open>h[key]\<close> on an \<open>http.Header\<close>, and \<open>h.Get(key)\<close>.\<close>

definition values_of :: "http_Header \<Rightarrow> string \<Rightarrow> string list" where
  "values_of h key = (case h key of None \<Rightarrow> [] | Some vs \<Rightarrow> vs)"

definition Header_Get :: "'t lib \<Rightarrow> http_Header \<Rightarrow> string \<Rightarrow> string" where
  "Header_Get L h key =
    (case values_of h (CanonicalHeaderKey L key) of [] \<Rightarrow> '''' | v # _ \<Rightarrow> v)"

text \<open>\<open>strings.SplitN(s, sep, 2)\<close> for a one-byte separator.\<close>

definition SplitN2 :: "string \<Rightarrow> char \<Rightarrow> string list" where
  "SplitN2 s sep =
    (if sep \<in> set s
     then [takeWhile (\<lambda>c. c \<noteq> sep) s, tl (dropWhile (\<lambda>c. c \<noteq> sep) s)]
     else [s])"

text \<open>A \<open>Request\<close>. Its \<open>URL\<close> is a pointer: \<open>None\<close> is nil.\<close>

record Request =
  Method :: string
  URI :: string
  URL :: "URL option"
  Proto :: string
  Header :: http_Header
  ContentLength :: "64 word"
  Host :: string
  RemoteAddr :: string
  User :: string

text \<open>
  The first loop of \<open>FirstForwardedFor\<close>, over the values of the \<open>Forwarded\<close> header:
  \<open>Some f\<close> when it returns \<open>f\<close>, \<open>None\<close> when it runs to its end.
\<close>

fun Forwarded_loop :: "'t lib \<Rightarrow> string list \<Rightarrow> panic + string option" where
  "Forwarded_loop L [] = Inr None"
| "Forwarded_loop L (h # hs) =
    (case ParsePairs L h True of
       Inl p \<Rightarrow> Inl p
     | Inr (pairs, _) \<Rightarrow>
        (let f = lookup pairs ''for''
         in if f \<noteq> '''' then Inr (Some f) else Forwarded_loop L hs))"

text \<open>The second loop, over the values of \<open>X-Forwarded-For\<close>, and the final return.\<close>

fun XForwardedFor_loop :: "'t lib \<Rightarrow> string list \<Rightarrow> string" where
  "XForwardedFor_loop L [] = ''''"
| "XForwardedFor_loop L (h # hs) =
    (let hops = SplitN2 h (CHR '','')
     in if length hops \<noteq> 0 then TrimSpace L (hops ! 0) else XForwardedFor_loop L hs)"

definition FirstForwardedFor :: "'t lib \<Rightarrow> Request \<Rightarrow> panic + string" where
  "FirstForwardedFor L r =
    (case Forwarded_loop L (values_of (Header r) ''Forwarded'') of
       Inl p \<Rightarrow> Inl p
     | Inr (Some f) \<Rightarrow> Inr f
     | Inr None \<Rightarrow> Inr (XForwardedFor_loop L (values_of (Header r) ''X-Forwarded-For'')))"

definition ClientAddr :: "'t lib \<Rightarrow> Request \<Rightarrow> panic + string" where
  "ClientAddr L r =
    (case FirstForwardedFor L r of
       Inl p \<Rightarrow> Inl p
     | Inr f \<Rightarrow> if f \<noteq> '''' then Inr f else Inr (RemoteAddr r))"

section \<open>Records and their format (response.go, record.go)\<close>

text \<open>
  A \<open>Response\<close> and a \<open>Record\<close>. The fields of \<open>Response\<close> carry the suffix \<open>_f\<close>:
  \<open>Status\<close>, \<open>Size\<close> and \<open>Hijacked\<close> are the wrapper's methods above, \<open>Header\<close> the
  field of the request.
\<close>

record Response =
  Status_f :: int
  Size_f :: "64 word"
  Hijacked_f :: bool
  Header_f :: http_Header

record 't Record =
  Request :: Request
  Response :: Response
  StartTime :: 't
  EndTime :: 't
  Duration :: "64 word"

definition SimpleLogFormat :: string where
  \<open>SimpleLogFormat = ''%a "%r" %s %B''\<close>

definition BasicLogFormat :: string where
  \<open>BasicLogFormat = ''%a %v %u "%r" %s %T %B "%{User-Agent}i"''\<close>

definition CommonLogFormat :: string where
  \<open>CommonLogFormat = ''%a - %u %t "%r" %s %B''\<close>

definition NCSALogFormat :: string where
  \<open>NCSALogFormat = ''%a - %u %t "%r" %s %B "%{Referer}i" "%{User-Agent}i"''\<close>

text \<open>\<open>time.Microsecond\<close> and \<open>time.Millisecond\<close>, in nanoseconds.\<close>

definition Microsecond :: "64 word" where "Microsecond = 1000"
definition Millisecond :: "64 word" where "Millisecond = 1000 * Microsecond"

text \<open>\<open>strconv.FormatInt(i, 10)\<close>.\<close>

function digits :: "nat \<Rightarrow> string" where
  "digits n =
    (if n < 10 then [''0123456789'' ! n]
     else digits (n div 10) @ [''0123456789'' ! (n mod 10)])"
  by pat_completeness auto
termination
  by (relation "measure (\<lambda>n. n)") auto

declare digits.simps [simp del]

definition FormatInt :: "int \<Rightarrow> string" where
  "FormatInt i = (if i < 0 then CHR ''-'' # digits (nat (- i)) else digits (nat i))"

text \<open>\<open>strings.Join\<close>, \<open>strings.HasPrefix\<close>, \<open>strings.TrimPrefix\<close>.\<close>

fun Join :: "string list \<Rightarrow> string \<Rightarrow> string" where
  "Join [] sep = ''''"
| "Join [x] sep = x"
| "Join (x # y # ys) sep = x @ sep @ Join (y # ys) sep"

definition HasPrefix :: "string \<Rightarrow> string \<Rightarrow> bool" where
  "HasPrefix s p = (take (length p) s = p)"

definition TrimPrefix :: "string \<Rightarrow> string \<Rightarrow> string" where
  "TrimPrefix s p = (if HasPrefix s p then drop (length p) s else s)"

text \<open>
  What one round of the loop of \<open>Format\<close> does: it panics, or writes and returns, or
  writes and leaves \<open>i\<close> at an index (the loop's \<open>i++\<close> comes after).
\<close>

datatype emit = Fails panic | Finish string | Emit string nat

text \<open>The inner switch of a \<open>%{key}c\<close> directive; \<open>j\<close> is the index of \<open>c\<close>.\<close>

definition Format_param :: "'t lib \<Rightarrow> 't Record \<Rightarrow> string \<Rightarrow> char \<Rightarrow> nat \<Rightarrow> emit" where
  "Format_param L r key c j =
    (if c = CHR ''C'' then
       (case ParsePairs L (Header_Get L (Header (Request r)) ''Cookie'') False of
          Inl p \<Rightarrow> Fails p
        | Inr (cookies, _) \<Rightarrow> Emit (lookup cookies key) j)
     else if c = CHR ''T'' then
       (if key = ''ms'' then Emit (FormatFloat_div L (Duration r) Millisecond) j
        else if key = ''us'' then Emit (FormatFloat_div L (Duration r) Microsecond) j
        else if key = ''s'' then Emit (FormatFloat_Seconds L (Duration r)) j
        else Emit (''%{'' @ key @ ''}T'') j)
     else if c = CHR ''i'' then
       Emit (Join (values_of (Header (Request r)) (CanonicalHeaderKey L key)) '','') j
     else if c = CHR ''o'' then
       Emit (Join (values_of (Header_f (Response r)) (CanonicalHeaderKey L key)) '','') j
     else if c = CHR ''t'' then
       (if HasPrefix key ''end:''
        then Emit (Time_Format L (EndTime r) (TrimPrefix key ''end:'')) j
        else Emit (Time_Format L (StartTime r) (TrimPrefix key ''begin:'')) j)
     else Emit (''%{'' @ key @ ''}'' @ [c]) j)"

text \<open>The case \<open>'{'\<close>; \<open>i\<close> is the index of the brace.\<close>

definition Format_braces :: "'t lib \<Rightarrow> 't Record \<Rightarrow> string \<Rightarrow> nat \<Rightarrow> emit" where
  "Format_braces L r format i =
    (let l = length format;
         j = scan (\<lambda>c. c = CHR ''}'') format (i + 1)
     in if j = l then
          (case slice_of format i l of
             Inl p \<Rightarrow> Fails p
           | Inr rest \<Rightarrow> Finish (CHR ''%'' # rest))
        else
          (case slice_of format (i + 1) j of
             Inl p \<Rightarrow> Fails p
           | Inr key \<Rightarrow>
              (let j = j + 1
               in if j = l then
                    (case slice_of format i l of
                       Inl p \<Rightarrow> Fails p
                     | Inr rest \<Rightarrow> Finish (CHR ''%'' # rest))
                  else
                    (case index format j of
                       Inl p \<Rightarrow> Fails p
                     | Inr c \<Rightarrow> Format_param L r key c j))))"

text \<open>The switch on the byte after \<open>%\<close>; \<open>i\<close> is its index.\<close>

definition Format_directive :: "'t lib \<Rightarrow> 't Record \<Rightarrow> string \<Rightarrow> nat \<Rightarrow> char \<Rightarrow> emit" where
  "Format_directive L r format i c =
    (if c = CHR ''%'' then Emit ''%'' i
     else if c = CHR ''B'' then Emit (FormatInt (sint (Size_f (Response r)))) i
     else if c = CHR ''D'' then Emit (FormatFloat_div L (Duration r) Microsecond) i
     else if c = CHR ''H'' then Emit (Proto (Request r)) i
     else if c = CHR ''T'' then Emit (FormatFloat_Seconds L (Duration r)) i
     else if c = CHR ''U'' then
       (case URL (Request r) of
          None \<Rightarrow> Fails NilDereference
        | Some u \<Rightarrow> Emit (Path u) i)
     else if c = CHR ''a'' then
       (case ClientAddr L (Request r) of
          Inl p \<Rightarrow> Fails p
        | Inr a \<Rightarrow> Emit a i)
     else if c = CHR ''m'' then Emit (Method (Request r)) i
     else if c = CHR ''q'' then
       (case URL (Request r) of
          None \<Rightarrow> Fails NilDereference
        | Some u \<Rightarrow> if RawQuery u \<noteq> '''' then Emit (''?'' @ RawQuery u) i else Emit '''' i)
     else if c = CHR ''r'' then
       (case URL (Request r) of
          None \<Rightarrow> Fails NilDereference
        | Some u \<Rightarrow>
            Emit (Method (Request r) @ '' '' @ Proto (Request r) @ '' '' @ URL_String L u) i)
     else if c = CHR ''s'' then Emit (FormatInt (Status_f (Response r))) i
     else if c = CHR ''t'' then
       Emit (Time_Format L (StartTime r) ''[02/Jan/2006:15:04:05 -0700]'') i
     else if c = CHR ''u'' then
       (if User (Request r) \<noteq> '''' then Emit (User (Request r)) i else Emit ''-'' i)
     else if c = CHR ''v'' then Emit (Host (Request r)) i
     else if c = CHR ''{'' then Format_braces L r format i
     else Emit [CHR ''%'', c] i)"

definition Format_round :: "'t lib \<Rightarrow> 't Record \<Rightarrow> string \<Rightarrow> nat \<Rightarrow> emit" where
  "Format_round L r format i =
    (case index format i of
       Inl p \<Rightarrow> Fails p
     | Inr c \<Rightarrow>
        if c = CHR ''%'' then
          (let i = i + 1
           in if i = length format then Finish ''%''
              else (case index format i of
                      Inl p \<Rightarrow> Fails p
                    | Inr c \<Rightarrow> Format_directive L r format i c))
        else Emit [c] i)"

lemma Format_param_Emit: "Format_param L r key c j = Emit s i' \<Longrightarrow> i' = j"
  by (auto simp: Format_param_def split: if_splits sum.splits prod.splits)

lemma Format_braces_Emit:
  assumes "Format_braces L r format i = Emit s i'"
  shows "i < i'"
proof -
  have "Suc i \<le> scan (\<lambda>c. c = CHR ''}'') format (Suc i)"
    by (rule scan_ge)
  with assms show ?thesis
    by (auto simp: Format_braces_def Let_def split: if_splits sum.splits
        dest!: Format_param_Emit)
qed

lemma Format_directive_Emit: "Format_directive L r format i c = Emit s i' \<Longrightarrow> i \<le> i'"
  by (auto simp: Format_directive_def split: if_splits sum.splits option.splits
      dest!: Format_braces_Emit)

lemma Format_round_Emit: "Format_round L r format i = Emit s i' \<Longrightarrow> i \<le> i'"
  by (auto simp: Format_round_def Let_def split: if_splits sum.splits
      dest!: Format_directive_Emit)

function Format_loop :: "'t lib \<Rightarrow> 't Record \<Rightarrow> string \<Rightarrow> nat \<Rightarrow> string \<Rightarrow> panic + string" where
  "Format_loop L r format i b =
    (if i < length format then
       (case Format_round L r format i of
          Fails p \<Rightarrow> Inl p
        | Finish s \<Rightarrow> Inr (b @ s)
        | Emit s i' \<Rightarrow> Format_loop L r format (i' + 1) (b @ s))
     else Inr b)"
  by pat_completeness auto
termination
  by (relation "measure (\<lambda>(L, r, format, i, b). length format - i)")
     (auto dest: Format_round_Emit)

declare Format_loop.simps [simp del]

definition Format :: "'t lib \<Rightarrow> 't Record \<Rightarrow> string \<Rightarrow> panic + string" where
  "Format L r format = Format_loop L r format 0 []"

section \<open>The order of priority of the client address, as specified\<close>

text \<open>
  The \<open>for\<close> attribute of a \<open>Forwarded\<close> value that parses, and the empty string for a
  value that does not parse or has none; then the address by priority: the first
  non-empty such attribute, else the trimmed first hop of the first \<open>X-Forwarded-For\<close>
  value when it is not empty, else the remote address.
\<close>

definition forwarded_for :: "'t lib \<Rightarrow> string \<Rightarrow> string" where
  "forwarded_for L h =
    (case ParsePairs L h True of
       Inr (Some m, None) \<Rightarrow> (case m ''for'' of None \<Rightarrow> '''' | Some f \<Rightarrow> f)
     | _ \<Rightarrow> '''')"

definition ClientAddr_by_priority :: "'t lib \<Rightarrow> Request \<Rightarrow> string" where
  "ClientAddr_by_priority L r =
    (case filter (\<lambda>f. f \<noteq> '''') (map (forwarded_for L) (values_of (Header r) ''Forwarded'')) of
       f # _ \<Rightarrow> f
     | [] \<Rightarrow>
        (case values_of (Header r) ''X-Forwarded-For'' of
           [] \<Rightarrow> RemoteAddr r
         | x # _ \<Rightarrow>
            (let hop = TrimSpace L (takeWhile (\<lambda>c. c \<noteq> CHR '','') x)
             in if hop \<noteq> '''' then hop else RemoteAddr r)))"

section \<open>Inputs of \<open>ParsePairs\<close> made of well-formed pairs\<close>

text \<open>
  A value as it is written in the input: bare, or between double quotes. An input made
  of pairs: each pair as \<open>name=value\<close>, the pairs joined with \<open>;\<close>. A pair is well formed
  when its name is not empty and has no \<open>=\<close> and no \<open>;\<close>, and its value is not empty and,
  when bare, does not open with a double quote and has no \<open>;\<close>, when quoted, has no
  double quote.
\<close>

datatype written = Bare string | Quoted string

fun written_text :: "written \<Rightarrow> string" where
  "written_text (Bare v) = v"
| "written_text (Quoted v) = CHR 0x22 # v @ [CHR 0x22]"

fun written_value :: "written \<Rightarrow> string" where
  "written_value (Bare v) = v"
| "written_value (Quoted v) = v"

fun well_formed_value :: "written \<Rightarrow> bool" where
  "well_formed_value (Bare v) = (v \<noteq> [] \<and> hd v \<noteq> CHR 0x22 \<and> CHR '';'' \<notin> set v)"
| "well_formed_value (Quoted v) = (v \<noteq> [] \<and> CHR 0x22 \<notin> set v)"

definition pair_text :: "string \<times> written \<Rightarrow> string" where
  "pair_text nv = fst nv @ ''='' @ written_text (snd nv)"

definition pairs_text :: "(string \<times> written) list \<Rightarrow> string" where
  "pairs_text kvs = Join (map pair_text kvs) '';''"

definition well_formed_pair :: "string \<times> written \<Rightarrow> bool" where
  "well_formed_pair nv =
    (fst nv \<noteq> [] \<and> CHR ''='' \<notin> set (fst nv) \<and> CHR '';'' \<notin> set (fst nv) \<and>
     well_formed_value (snd nv))"

text \<open>The name a pair is stored under: lower-cased when \<open>ci\<close>.\<close>

definition stored_key :: "'t lib \<Rightarrow> bool \<Rightarrow> string \<Rightarrow> string" where
  "stored_key L ci n = (if ci then ToLower L n else n)"

text \<open>The pair as it is stored.\<close>

definition stored_pair :: "'t lib \<Rightarrow> bool \<Rightarrow> string \<times> written \<Rightarrow> string \<times> string" where
  "stored_pair L ci nv = (stored_key L ci (fst nv), written_value (snd nv))"

section \<open>A library instance and sample records, for evaluating\<close>

text \<open>
  An instance of the library parameter, to evaluate the model at concrete inputs. It agrees
  with Go's library on the inputs used below: ASCII text for \<open>ToLower\<close>, \<open>TrimSpace\<close> and
  \<open>CanonicalHeaderKey\<close>, a URL that is a plain path and query, the one time \<open>()\<close> that is
  the reference time of the layouts (2006-01-02 15:04:05 -0700, which every layout made of
  the reference elements formats to itself), and durations that are whole multiples of the
  unit. What holds for every library is stated with a free \<open>L\<close>.
\<close>

definition ascii_lower :: "char \<Rightarrow> char" where
  "ascii_lower c =
    (case map_of (zip ''ABCDEFGHIJKLMNOPQRSTUVWXYZ'' ''abcdefghijklmnopqrstuvwxyz'') c of
       None \<Rightarrow> c | Some d \<Rightarrow> d)"

definition ascii_upper :: "char \<Rightarrow> char" where
  "ascii_upper c =
    (case map_of (zip ''abcdefghijklmnopqrstuvwxyz'' ''ABCDEFGHIJKLMNOPQRSTUVWXYZ'') c of
       None \<Rightarrow> c | Some d \<Rightarrow> d)"

definition ascii_space :: "char \<Rightarrow> bool" where
  "ascii_space c = (c \<in> set [CHR '' '', CHR 0x09, CHR 0x0A, CHR 0x0B, CHR 0x0C, CHR 0x0D])"

fun canonical :: "bool \<Rightarrow> string \<Rightarrow> string" where
  "canonical up [] = []"
| "canonical up (c # cs) =
    (if up then ascii_upper c else ascii_lower c) # canonical (c = CHR ''-'') cs"

definition sample_lib :: "unit lib" where
  "sample_lib =
    \<lparr>ToLower = map ascii_lower,
     TrimSpace = (\<lambda>s. rev (dropWhile ascii_space (rev (dropWhile ascii_space s)))),
     CanonicalHeaderKey = canonical True,
     URL_String = (\<lambda>u. Path u @ (if RawQuery u = '''' then '''' else ''?'' @ RawQuery u)),
     Time_Format = (\<lambda>t layout. layout),
     FormatFloat_div = (\<lambda>d unit. FormatInt (sint d div sint unit)),
     FormatFloat_Seconds = (\<lambda>d. FormatInt (sint d div 1000000000))\<rparr>"

definition sample_Request :: "http_Header \<Rightarrow> Request" where
  "sample_Request h =
    \<lparr>Method = ''GET'', URI = ''/x'', URL = Some \<lparr>Path = ''/x'', RawQuery = ''''\<rparr>,
     Proto = ''HTTP/1.1'', Header = h, ContentLength = 0, Host = ''example.org'',
     RemoteAddr = ''192.0.2.1:4711'', User = ''''\<rparr>"

definition sample_Record :: "http_Header \<Rightarrow> unit Record" where
  "sample_Record h =
    \<lparr>Request = sample_Request h,
     Response = \<lparr>Status_f = 200, Size_f = 34, Hijacked_f = False, Header_f = Map.empty\<rparr>,
     StartTime = (), EndTime = (), Duration = 0\<rparr>"

text \<open>The zero \<open>Record\<close>: what \<open>new(Record)\<close> and \<open>Reset\<close> give.\<close>

definition zero_Record :: "unit Record" where
  "zero_Record =
    \<lparr>Request = \<lparr>Method = '''', URI = '''', URL = None, Proto = '''', Header = Map.empty,
        ContentLength = 0, Host = '''', RemoteAddr = '''', User = ''''\<rparr>,
     Response = \<lparr>Status_f = 0, Size_f = 0, Hijacked_f = False, Header_f = Map.empty\<rparr>,
     StartTime = (), EndTime = (), Duration = 0\<rparr>"

section \<open>Properties of the wrapper\<close>

lemmas wrap_defs =
  WrapResponseWriter_def wrap_index_def closeNotifier_def flusher_def hijacker_def pusher_def
  types_def build_def Let_def

lemmas method_defs = exposes_def has_method_def promoted_def declared_def

lemma wrap_index_less: "wrap_index rw < 16"
  by (simp add: wrap_index_def closeNotifier_def flusher_def hijacker_def pusher_def Let_def)

lemma WrapResponseWriter_embedded: "embedded (WrapResponseWriter rw) = new_responseWriter rw"
  by (cases "sink_CloseNotify rw"; cases "sink_Flush rw"; cases "sink_Hijack rw";
      cases "sink_Push rw") (simp_all add: wrap_defs)

text \<open>
  Away from the two table entries 7 (close notifier, flusher, hijacker) and 11 (close
  notifier, flusher, pusher), the wrapper exposes an optional interface exactly when the
  underlying writer implements it.
\<close>

lemma exposes_iff_implements:
  "wrap_index rw \<noteq> 7 \<Longrightarrow> wrap_index rw \<noteq> 11 \<Longrightarrow>
   exposes (WrapResponseWriter rw) I = implements rw I"
  by (cases I; cases "sink_CloseNotify rw"; cases "sink_Flush rw"; cases "sink_Hijack rw";
      cases "sink_Push rw") (simp_all add: wrap_defs method_defs)

lemma exposes_Hijacker_iff: "exposes (WrapResponseWriter rw) Hijacker = implements rw Hijacker"
  by (cases "sink_CloseNotify rw"; cases "sink_Flush rw"; cases "sink_Hijack rw";
      cases "sink_Push rw") (simp_all add: wrap_defs method_defs)

text \<open>
  C1. The claim: for each of the 16 subsets of optional interfaces, the wrapper exposes an
  interface if and only if the underlying writer implements it. The code: the \<open>Push\<close>
  method meant for \<open>responseWriterCloseNotifierFlusherPusher\<close> is declared on the receiver
  \<open>responseWriterCloseNotifierFlusherHijacker\<close>. So over a writer that is a close notifier,
  a flusher and a pusher the wrapper is no \<open>http.Pusher\<close>, and over a writer that is a
  close notifier, a flusher and a hijacker the wrapper is an \<open>http.Pusher\<close> the writer
  is not.
\<close>

theorem WrapResponseWriter_Pusher_mismatch:
  "implements (recorder_sink 0 [CloseNotifier, Flusher, Pusher]) Pusher \<and>
   \<not> exposes (WrapResponseWriter (recorder_sink 0 [CloseNotifier, Flusher, Pusher])) Pusher \<and>
   \<not> implements (recorder_sink 0 [CloseNotifier, Flusher, Hijacker]) Pusher \<and>
   exposes (WrapResponseWriter (recorder_sink 0 [CloseNotifier, Flusher, Hijacker])) Pusher"
  by (simp add: wrap_defs method_defs recorder_sink_def)

subsection \<open>The recorded status\<close>

lemma Status_WriteHeaders:
  "Status (WriteHeaders w cs) =
    (if cs = [] then Status w else if last cs = 0 then 200 else last cs)"
  by (induction cs arbitrary: w)
     (auto simp: Status_def WriteHeader_def responseWriter_WriteHeader_def
        responseWriter_Status_def Let_def)

lemma Status_WrapResponseWriter: "Status (WrapResponseWriter rw) = 200"
  by (simp add: Status_def WrapResponseWriter_embedded new_responseWriter_def
      responseWriter_Status_def)

text \<open>
  C2, as claimed: after the first \<open>WriteHeader(c)\<close> the recorded status stays \<open>c\<close>. The
  code overwrites the field on every call: after \<open>WriteHeader(404)\<close> and then
  \<open>WriteHeader(500)\<close>, \<open>Status()\<close> is 500.
\<close>

theorem Status_second_WriteHeader_counterexample:
  "Status (WriteHeaders (WrapResponseWriter (recorder_sink 0 [])) [404]) = 404 \<and>
   Status (WriteHeaders (WrapResponseWriter (recorder_sink 0 [])) [404, 500]) = 500"
  unfolding Status_WriteHeaders by simp

text \<open>
  C2, amended: \<open>Status()\<close> is 200 when \<open>WriteHeader\<close> was never called; after any
  sequence of \<open>WriteHeader\<close> calls it is the code of the last call (200 when that code
  is 0, which the field cannot tell from unset).
\<close>

theorem Status_is_last_WriteHeader:
  "Status (WriteHeaders (WrapResponseWriter rw) cs) =
    (if cs = [] \<or> last cs = 0 then 200 else last cs)"
  by (simp add: Status_WriteHeaders Status_WrapResponseWriter)

subsection \<open>The recorded size\<close>

lemma Size_Write: "Write w p = ((n, err), w') \<Longrightarrow> Size w' = Size w + word_of_int n"
  by (auto simp: Write_def responseWriter_Write_def Size_def responseWriter_Size_def Let_def
      split: prod.splits)

lemma Write_returns_sink_result:
  "fst (Write w p) =
    fst (sink_Write (responseWriter (embedded w)) (sink_state (responseWriter (embedded w))) p)"
  by (simp add: Write_def responseWriter_Write_def Let_def split: prod.splits)

lemma Size_Writes:
  "Writes w ps = (rs, w') \<Longrightarrow> Size w' = Size w + word_of_int (sum_list (map fst rs))"
proof (induction ps arbitrary: w rs w')
  case Nil
  then show ?case by simp
next
  case (Cons p ps)
  obtain n err w1 where w1: "Write w p = ((n, err), w1)"
    by (metis prod.exhaust)
  obtain rs2 w2 where w2: "Writes w1 ps = (rs2, w2)"
    by (metis prod.exhaust)
  from Cons.prems w1 w2 have eq: "rs = (n, err) # rs2" "w' = w2"
    by simp_all
  have "Size w2 = Size w1 + word_of_int (sum_list (map fst rs2))"
    by (rule Cons.IH [OF w2])
  with Size_Write [OF w1] eq show ?case
    by simp
qed

lemma Size_WrapResponseWriter: "Size (WrapResponseWriter rw) = 0"
  by (simp add: Size_def WrapResponseWriter_embedded new_responseWriter_def
      responseWriter_Size_def)

lemma length_Writes: "Writes w ps = (rs, w') \<Longrightarrow> length rs = length ps"
  by (induction ps arbitrary: w rs w') (auto split: prod.splits)

lemma Write_sink:
  "Write w p =
    (let u = responseWriter (embedded w);
         (res, s') = sink_Write u (sink_state u) p
     in (res, w\<lparr>embedded := (embedded w)
           \<lparr>responseWriter := u\<lparr>sink_state := s'\<rparr>,
            size_f := size_f (embedded w) + word_of_int (fst res)\<rparr>\<rparr>))"
  by (simp add: Write_def responseWriter_Write_def Let_def split: prod.splits)

lemma Writes_reports:
  "fst (Writes w ps) = sink_reports (responseWriter (embedded w)) ps"
proof (induction ps arbitrary: w)
  case Nil
  show ?case by simp
next
  case (Cons p ps)
  let ?u = "responseWriter (embedded w)"
  obtain res s' where sw: "sink_Write ?u (sink_state ?u) p = (res, s')"
    by (metis prod.exhaust)
  define w1 where "w1 = w\<lparr>embedded := (embedded w)
           \<lparr>responseWriter := ?u\<lparr>sink_state := s'\<rparr>,
            size_f := size_f (embedded w) + word_of_int (fst res)\<rparr>\<rparr>"
  have w: "Write w p = (res, w1)"
    by (simp add: Write_sink sw w1_def)
  have u1: "responseWriter (embedded w1) = ?u\<lparr>sink_state := s'\<rparr>"
    by (simp add: w1_def)
  have "fst (Writes w (p # ps)) = res # fst (Writes w1 ps)"
    by (simp add: w split: prod.splits)
  also have "\<dots> = res # sink_reports (?u\<lparr>sink_state := s'\<rparr>) ps"
    by (simp add: Cons.IH u1)
  also have "\<dots> = sink_reports ?u (p # ps)"
    by (simp add: sw)
  finally show ?case .
qed

text \<open>
  C3. After \<open>N\<close> writes through a fresh wrapper, the results the wrapper returned are the
  ones the underlying writer reported for these writes, \<open>sink_reports\<close>; and with the
  counts \<open>n\<^sub>1 .. n\<^sub>N\<close> among them (whatever was requested, with or without errors),
  \<open>Size()\<close> is their sum: as a 64-bit value always, and as a number whenever the sum
  is one an \<open>int64\<close> holds.
\<close>

theorem Size_is_sum_of_accepted:
  assumes "Writes (WrapResponseWriter rw) ps = (rs, w')"
  shows "rs = sink_reports rw ps \<and>
         length rs = length ps \<and>
         Size w' = word_of_int (sum_list (map fst (sink_reports rw ps))) \<and>
         (- (2 ^ 63) \<le> sum_list (map fst (sink_reports rw ps)) \<and>
          sum_list (map fst (sink_reports rw ps)) < 2 ^ 63 \<longrightarrow>
            sint (Size w') = sum_list (map fst (sink_reports rw ps)))"
proof -
  have rs: "rs = sink_reports rw ps"
    using Writes_reports [of "WrapResponseWriter rw" ps] assms
    by (simp add: WrapResponseWriter_embedded new_responseWriter_def)
  have sz: "Size w' = word_of_int (sum_list (map fst rs))"
    using Size_Writes [OF assms] by (simp add: Size_WrapResponseWriter)
  have "sint (word_of_int (sum_list (map fst rs)) :: 64 word) = sum_list (map fst rs)"
    if "- (2 ^ 63) \<le> sum_list (map fst rs)" "sum_list (map fst rs) < 2 ^ 63"
    using that by (simp add: signed_of_int signed_take_bit_int_eq_self)
  with sz length_Writes [OF assms] rs show ?thesis
    by simp
qed

theorem Size_is_sum_of_accepted_witness:
  "sink_reports (recorder_sink 3 [Flusher]) [[1, 2], [1, 2, 3, 4, 5]] =
     [(2, None), (3, Some ''short write'')] \<and>
   fst (Writes (WrapResponseWriter (recorder_sink 3 [Flusher])) [[1, 2], [1, 2, 3, 4, 5]]) =
     [(2, None), (3, Some ''short write'')] \<and>
   sint (Size (snd (Writes (WrapResponseWriter (recorder_sink 3 [Flusher]))
     [[1, 2], [1, 2, 3, 4, 5]]))) = 5"
proof -
  let ?u = "recorder_sink 3 [Flusher]"
  let ?ps = "[[1, 2], [1, 2, 3, 4, 5]] :: byte list list"
  have rep: "sink_reports ?u ?ps = [(2, None), (3, Some ''short write'')]"
    by (simp add: recorder_sink_def)
  have run: "Writes (WrapResponseWriter ?u) ?ps =
      (fst (Writes (WrapResponseWriter ?u) ?ps), snd (Writes (WrapResponseWriter ?u) ?ps))"
    by simp
  from Size_is_sum_of_accepted [OF run] rep show ?thesis
    by simp
qed

subsection \<open>The hijacked flag\<close>

text \<open>
  C4. On a wrapper whose type has \<open>Hijack\<close>, the call leaves \<open>Hijacked()\<close> true
  whatever comes of it: the result is the underlying writer's own result (its connection
  or its error), or the panic of the type assertion, and in each case the flag was set
  first.
\<close>

theorem Hijack_sets_hijacked:
  assumes "exposes w Hijacker"
  shows "\<exists>res w'. Hijack w = Some (res, w') \<and> Hijacked w' \<and>
           res = (case sink_Hijack (responseWriter (embedded w)) of
                    None \<Rightarrow> Inl TypeAssertion
                  | Some h \<Rightarrow> Inr (fst (h (sink_state (responseWriter (embedded w))))))"
proof -
  from assms have "(shape w, M_Hijack) \<in> set declared"
    by (simp add: exposes_def has_method_def promoted_def)
  then show ?thesis
    by (auto simp: Hijack_def Hijack_body_def Hijacked_def responseWriter_Hijacked_def Let_def
        split: option.splits prod.splits)
qed

theorem Hijack_sets_hijacked_witness:
  "exposes (WrapResponseWriter (recorder_sink 0 [Hijacker])) Hijacker \<and>
   (\<exists>w'. Hijack (WrapResponseWriter (recorder_sink 0 [Hijacker])) =
       Some (Inr (None, Some ''hijack failed''), w') \<and> Hijacked w')"
proof -
  let ?w = "WrapResponseWriter (recorder_sink 0 [Hijacker])"
  have ex: "exposes ?w Hijacker"
    by (simp add: wrap_defs method_defs recorder_sink_def)
  have u: "sink_Hijack (responseWriter (embedded ?w)) = Some (\<lambda>s. ((None, Some ''hijack failed''), s))"
    by (simp add: WrapResponseWriter_embedded new_responseWriter_def recorder_sink_def)
  from Hijack_sets_hijacked [OF ex] u ex show ?thesis
    by auto
qed

section \<open>Properties of \<open>ParsePairs\<close>\<close>

subsection \<open>The scanning loops\<close>

lemma scan_le: "j \<le> length s \<Longrightarrow> scan stop s j \<le> length s"
  by (induction stop s j rule: scan.induct) (subst scan.simps, auto)

lemma scan_beyond: "length s \<le> j \<Longrightarrow> scan stop s j = j"
  by (subst scan.simps) simp

lemma drop_eq_ConsD:
  assumes "drop j s = x # t"
  shows "j < length s \<and> s ! j = x \<and> drop (Suc j) s = t"
proof -
  from assms have j: "j < length s"
    by (cases "j < length s") simp_all
  then have "s ! j # drop (Suc j) s = drop j s"
    by (rule Cons_nth_drop_Suc)
  with assms j show ?thesis
    by simp
qed

lemma drop_add_eq: "drop s xs = a @ ys \<Longrightarrow> drop (s + length a) xs = ys"
proof -
  assume "drop s xs = a @ ys"
  then have "drop (length a) (drop s xs) = ys"
    by simp
  then show ?thesis
    by (simp add: add.commute)
qed

lemma scan_skip:
  assumes "drop j s = a @ rest" "\<forall>c\<in>set a. \<not> stop c" "rest = [] \<or> stop (hd rest)"
  shows "scan stop s j = j + length a"
  using assms
proof (induction a arbitrary: j)
  case Nil
  show ?case
  proof (cases rest)
    case Nil
    with Nil.prems(1) have "length s \<le> j" by simp
    then show ?thesis by (simp add: scan_beyond)
  next
    case (Cons x t)
    with Nil.prems(1) have "j < length s \<and> s ! j = x \<and> drop (Suc j) s = t"
      by (intro drop_eq_ConsD) simp
    moreover from Cons Nil.prems(3) have "stop x" by simp
    ultimately show ?thesis by (subst scan.simps) simp
  qed
next
  case (Cons x a)
  from Cons.prems(1) have d: "j < length s \<and> s ! j = x \<and> drop (Suc j) s = a @ rest"
    by (intro drop_eq_ConsD) simp
  from Cons.prems(2) have nx: "\<not> stop x" and na: "\<forall>c\<in>set a. \<not> stop c"
    by simp_all
  from d have "drop (Suc j) s = a @ rest" by simp
  then have "scan stop s (Suc j) = Suc j + length a"
    using na Cons.prems(3) by (rule Cons.IH)
  with d nx show ?case
    by (subst scan.simps) simp
qed

subsection \<open>One round of the loop\<close>

text \<open>
  A round that starts at a pair \<open>name=value\<close> with an unquoted value, followed by the end
  of the input or by \<open>;\<close> and more: it stores the pair and goes on after the \<open>;\<close>.
\<close>

lemma round_unquoted:
  assumes dr: "drop s text = n @ CHR ''='' # v @ rest"
    and n: "n \<noteq> []" "\<forall>c\<in>set n. c \<noteq> CHR ''='' \<and> c \<noteq> CHR '';''"
    and v: "v \<noteq> []" "hd v \<noteq> CHR 0x22" "CHR '';'' \<notin> set v"
    and rest: "rest = [] \<or> (\<exists>t. rest = CHR '';'' # t \<and> t \<noteq> [])"
  shows "ParsePairs_round L text ci s =
    Stores (s + length n + length v + 2) (if ci then ToLower L n else n) v"
proof -
  define ne where "ne = s + length n"
  define vs where "vs = ne + 1"
  define ve where "ve = vs + length v"
  have len: "length text = ve + length rest"
    using arg_cong [OF dr, of length] by (simp add: ne_def vs_def ve_def)
  have scan_ne: "scan (\<lambda>c. c = CHR ''='' \<or> c = CHR '';'') text s = ne"
  proof -
    have "\<forall>c\<in>set n. \<not> (c = CHR ''='' \<or> c = CHR '';'')"
      using n(2) by simp
    with dr show ?thesis
      unfolding ne_def by (rule scan_skip) simp
  qed
  have d1: "drop ne text = CHR ''='' # v @ rest"
    unfolding ne_def using dr by (rule drop_add_eq)
  then have at_ne: "ne < length text \<and> text ! ne = CHR ''='' \<and> drop (Suc ne) text = v @ rest"
    by (rule drop_eq_ConsD)
  then have d2: "drop vs text = v @ rest"
    by (simp add: vs_def)
  from v(1) d2 have at_vs: "vs < length text \<and> text ! vs = hd v"
    by (cases v) (auto dest: drop_eq_ConsD)
  have scan_ve: "scan (\<lambda>c. c = CHR '';'') text vs = ve"
  proof -
    have "\<forall>c\<in>set v. \<not> c = CHR '';''"
      using v(3) by auto
    with d2 show ?thesis
      unfolding ve_def by (rule scan_skip) (use rest in auto)
  qed
  have name: "slice_of text s ne = Inr n"
    using dr at_ne by (simp add: slice_of_def ne_def)
  have val: "slice_of text vs ve = Inr v"
    using d2 len by (simp add: slice_of_def ve_def)
  have store: "ParsePairs_store L text ci s ne vs ve (ve + 1) =
      Stores (ve + 1) (if ci then ToLower L n else n) v"
  proof -
    have "vs \<noteq> ve"
      using v(1) by (simp add: ve_def)
    moreover have "ve + 1 \<noteq> length text"
      using rest by (auto simp: len)
    ultimately show ?thesis
      using name val by (simp add: ParsePairs_store_def)
  qed
  have "ParsePairs_round L text ci s = ParsePairs_store L text ci s ne vs ve (ve + 1)"
    unfolding ParsePairs_round_def Let_def scan_ne vs_def [symmetric] scan_ve
    using n(1) at_ne at_vs v(2) by (simp add: index_def ne_def)
  with store show ?thesis
    by (simp add: ve_def vs_def ne_def)
qed

text \<open>
  A round that starts at a pair whose value opens with a double quote, with at least one
  more byte and no double quote after the first of them, up to the end of the input.
\<close>

lemma round_unterminated_quote:
  assumes dr: "drop s text = n @ CHR ''='' # CHR 0x22 # v"
    and n: "n \<noteq> []" "\<forall>c\<in>set n. c \<noteq> CHR ''='' \<and> c \<noteq> CHR '';''"
    and v: "v \<noteq> []" "CHR 0x22 \<notin> set (tl v)"
  shows "ParsePairs_round L text ci s =
    Stores (length text + 2) (if ci then ToLower L n else n) v"
proof -
  define ne where "ne = s + length n"
  define vs where "vs = ne + 1"
  define e where "e = length text"
  have len: "e = vs + 1 + length v"
    using arg_cong [OF dr, of length] by (simp add: ne_def vs_def e_def)
  have scan_ne: "scan (\<lambda>c. c = CHR ''='' \<or> c = CHR '';'') text s = ne"
  proof -
    have "\<forall>c\<in>set n. \<not> (c = CHR ''='' \<or> c = CHR '';'')"
      using n(2) by simp
    with dr show ?thesis
      unfolding ne_def by (rule scan_skip) simp
  qed
  have "drop ne text = CHR ''='' # CHR 0x22 # v"
    unfolding ne_def using dr by (rule drop_add_eq)
  then have at_ne: "ne < length text \<and> text ! ne = CHR ''='' \<and> drop (Suc ne) text = CHR 0x22 # v"
    by (rule drop_eq_ConsD)
  then have "drop vs text = CHR 0x22 # v"
    by (simp add: vs_def)
  then have at_vs: "vs < length text \<and> text ! vs = CHR 0x22 \<and> drop (Suc vs) text = v"
    by (rule drop_eq_ConsD)
  from v(1) obtain x v' where vx: "v = x # v'"
    by (cases v) auto
  from at_vs vx have "drop (Suc vs) text = x # v'"
    by simp
  then have "drop (Suc (Suc vs)) text = v'"
    by (auto dest: drop_eq_ConsD)
  then have d3: "drop (vs + 2) text = v' @ []"
    by simp
  have scan_ve: "scan (\<lambda>c. c = CHR 0x22) text (vs + 2) = e"
  proof -
    have "\<forall>c\<in>set v'. \<not> c = CHR 0x22"
      using v(2) vx by auto
    with d3 have "scan (\<lambda>c. c = CHR 0x22) text (vs + 2) = vs + 2 + length v'"
      by (rule scan_skip) simp
    then show ?thesis
      by (simp add: len vx)
  qed
  have name: "slice_of text s ne = Inr n"
    using dr at_ne by (simp add: slice_of_def ne_def)
  have val: "slice_of text (vs + 1) e = Inr v"
    using at_vs len by (simp add: slice_of_def e_def)
  have store: "ParsePairs_store L text ci s ne (vs + 1) e (e + 1 + 1) =
      Stores (e + 2) (if ci then ToLower L n else n) v"
  proof -
    have "vs + 1 \<noteq> e"
      using v(1) by (simp add: len)
    moreover have "e + 1 + 1 \<noteq> length text"
      by (simp add: e_def)
    ultimately show ?thesis
      using name val by (simp add: ParsePairs_store_def)
  qed
  have "ParsePairs_round L text ci s = ParsePairs_store L text ci s ne (vs + 1) e (e + 1 + 1)"
    unfolding ParsePairs_round_def Let_def scan_ne vs_def [symmetric] scan_ve
    using n(1) at_ne at_vs by (simp add: index_def ne_def e_def)
  with store show ?thesis
    by (simp add: e_def)
qed

text \<open>
  A round that starts at a pair whose value is between double quotes, with at least one
  byte between them and no double quote after the first of these, followed by the end of
  the input or by \<open>;\<close> and more.
\<close>

lemma round_quoted:
  assumes dr: "drop s text = n @ CHR ''='' # CHR 0x22 # v @ CHR 0x22 # rest"
    and n: "n \<noteq> []" "\<forall>c\<in>set n. c \<noteq> CHR ''='' \<and> c \<noteq> CHR '';''"
    and v: "v \<noteq> []" "CHR 0x22 \<notin> set (tl v)"
    and rest: "rest = [] \<or> (\<exists>t. rest = CHR '';'' # t \<and> t \<noteq> [])"
  shows "ParsePairs_round L text ci s =
    Stores (s + length n + length v + 4) (if ci then ToLower L n else n) v"
proof -
  define ne where "ne = s + length n"
  define vs where "vs = ne + 1"
  define ve where "ve = vs + 1 + length v"
  have len: "length text = ve + 1 + length rest"
    using arg_cong [OF dr, of length] by (simp add: ne_def vs_def ve_def)
  have scan_ne: "scan (\<lambda>c. c = CHR ''='' \<or> c = CHR '';'') text s = ne"
  proof -
    have "\<forall>c\<in>set n. \<not> (c = CHR ''='' \<or> c = CHR '';'')"
      using n(2) by simp
    with dr show ?thesis
      unfolding ne_def by (rule scan_skip) simp
  qed
  have "drop ne text = CHR ''='' # CHR 0x22 # v @ CHR 0x22 # rest"
    unfolding ne_def using dr by (rule drop_add_eq)
  then have at_ne: "ne < length text \<and> text ! ne = CHR ''='' \<and>
      drop (Suc ne) text = CHR 0x22 # v @ CHR 0x22 # rest"
    by (rule drop_eq_ConsD)
  then have "drop vs text = CHR 0x22 # v @ CHR 0x22 # rest"
    by (simp add: vs_def)
  then have at_vs: "vs < length text \<and> text ! vs = CHR 0x22 \<and>
      drop (Suc vs) text = v @ CHR 0x22 # rest"
    by (rule drop_eq_ConsD)
  from v(1) obtain x v' where vx: "v = x # v'"
    by (cases v) auto
  from at_vs vx have "drop (Suc vs) text = x # v' @ CHR 0x22 # rest"
    by simp
  then have "drop (Suc (Suc vs)) text = v' @ CHR 0x22 # rest"
    by (auto dest: drop_eq_ConsD)
  then have d3: "drop (vs + 2) text = v' @ CHR 0x22 # rest"
    by simp
  have scan_ve: "scan (\<lambda>c. c = CHR 0x22) text (vs + 2) = ve"
  proof -
    have "\<forall>c\<in>set v'. \<not> c = CHR 0x22"
      using v(2) vx by auto
    with d3 have "scan (\<lambda>c. c = CHR 0x22) text (vs + 2) = vs + 2 + length v'"
      by (rule scan_skip) simp
    then show ?thesis
      by (simp add: ve_def vx)
  qed
  from d3 have "drop (vs + 2 + length v') text = CHR 0x22 # rest"
    by (rule drop_add_eq)
  then have "drop ve text = CHR 0x22 # rest"
    by (simp add: ve_def vx)
  then have at_ve: "ve < length text \<and> text ! ve = CHR 0x22 \<and> drop (Suc ve) text = rest"
    by (rule drop_eq_ConsD)
  have after: "(Suc ve < length text \<and> text ! Suc ve \<noteq> CHR '';'') = False"
  proof (cases "rest = []")
    case True
    then show ?thesis by (simp add: len)
  next
    case False
    with rest obtain t where "rest = CHR '';'' # t"
      by auto
    with at_ve have "drop (Suc ve) text = CHR '';'' # t"
      by simp
    then have "text ! Suc ve = CHR '';''"
      by (auto dest: drop_eq_ConsD)
    then show ?thesis by simp
  qed
  have name: "slice_of text s ne = Inr n"
    using dr at_ne by (simp add: slice_of_def ne_def)
  have val: "slice_of text (vs + 1) ve = Inr v"
    using at_vs at_ve by (simp add: slice_of_def ve_def)
  have store: "ParsePairs_store L text ci s ne (vs + 1) ve (ve + 1 + 1) =
      Stores (ve + 2) (if ci then ToLower L n else n) v"
  proof -
    have "vs + 1 \<noteq> ve"
      using v(1) by (simp add: ve_def)
    moreover have "ve + 1 + 1 \<noteq> length text"
      using rest by (auto simp: len)
    ultimately show ?thesis
      using name val by (simp add: ParsePairs_store_def)
  qed
  have "ParsePairs_round L text ci s = ParsePairs_store L text ci s ne (vs + 1) ve (ve + 1 + 1)"
    unfolding ParsePairs_round_def Let_def scan_ne vs_def [symmetric] scan_ve
    using n(1) at_ne at_vs after by (auto simp: index_def ne_def)
  with store show ?thesis
    by (simp add: ve_def vs_def ne_def)
qed

lemma ParsePairs_loop_Stores:
  "s < length text \<Longrightarrow> ParsePairs_round L text ci s = Stores s' k v \<Longrightarrow>
   ParsePairs_loop L text ci s pairs =
     ParsePairs_loop L text ci s'
       (Some ((case pairs of None \<Rightarrow> Map.empty | Some m \<Rightarrow> m)(k \<mapsto> v)))"
  by (subst ParsePairs_loop.simps) simp

lemma ParsePairs_loop_end:
  "length text \<le> s \<Longrightarrow> ParsePairs_loop L text ci s pairs = Inr (pairs, None)"
  by (subst ParsePairs_loop.simps) simp

lemmas ParsePairs_eval =
  ParsePairs_def ParsePairs_loop.simps ParsePairs_round_def ParsePairs_store_def scan.simps
  index_def slice_of_def Let_def

lemmas ClientAddr_eval =
  ClientAddr_def FirstForwardedFor_def values_of_def lookup_def SplitN2_def

lemmas Format_eval =
  Format_def Format_loop.simps Format_round_def Format_directive_def Format_braces_def
  Format_param_def FormatInt_def digits.simps Header_Get_def

lemmas sample_defs =
  sample_lib_def sample_Request_def sample_Record_def zero_Record_def
  ascii_lower_def ascii_upper_def ascii_space_def

subsection \<open>Duplicate names\<close>

text \<open>
  C7, as claimed: an input with two pairs of the same name is a parse error. The code
  has no check for a name it has seen: \<open>a=1;a=2\<close> parses, and the map holds \<open>a\<close> with
  the second value.
\<close>

theorem ParsePairs_duplicate_counterexample:
  "ParsePairs sample_lib ''a=1;a=2'' False = Inr (Some [''a'' \<mapsto> ''2''], None)"
  by (simp add: ParsePairs_eval)

lemma pairs_text_Cons:
  "pairs_text (nv # nv' # kvs) = pair_text nv @ '';'' @ pairs_text (nv' # kvs)"
  by (simp add: pairs_text_def)

lemma pairs_text_single: "pairs_text [nv] = pair_text nv"
  by (simp add: pairs_text_def)

lemma pair_text_nonempty: "well_formed_pair nv \<Longrightarrow> pair_text nv \<noteq> []"
  by (simp add: pair_text_def well_formed_pair_def)

lemma pairs_text_nonempty: "well_formed_pair nv \<Longrightarrow> pairs_text (nv # kvs) \<noteq> []"
  by (cases kvs) (simp_all add: pairs_text_Cons pairs_text_single pair_text_nonempty)

lemma round_pair:
  assumes wf: "well_formed_pair nv"
    and rest: "rest = [] \<or> (\<exists>t. rest = CHR '';'' # t \<and> t \<noteq> [])"
    and dr: "drop s inp = pair_text nv @ rest"
  shows "ParsePairs_round L inp ci s =
    Stores (s + length (pair_text nv) + 1) (stored_key L ci (fst nv)) (written_value (snd nv))"
proof -
  obtain n a where nv: "nv = (n, a)"
    by (cases nv)
  from wf nv have n: "n \<noteq> []" "\<forall>c\<in>set n. c \<noteq> CHR ''='' \<and> c \<noteq> CHR '';''"
    by (auto simp: well_formed_pair_def)
  show ?thesis
  proof (cases a)
    case (Bare v)
    with wf nv have v: "v \<noteq> []" "hd v \<noteq> CHR 0x22" "CHR '';'' \<notin> set v"
      by (simp_all add: well_formed_pair_def)
    from dr nv Bare have "drop s inp = n @ CHR ''='' # v @ rest"
      by (simp add: pair_text_def)
    then have "ParsePairs_round L inp ci s =
        Stores (s + length n + length v + 2) (if ci then ToLower L n else n) v"
      using n v rest by (rule round_unquoted)
    then show ?thesis
      by (simp add: nv Bare pair_text_def stored_key_def)
  next
    case (Quoted v)
    with wf nv have v: "v \<noteq> []" "CHR 0x22 \<notin> set (tl v)"
      by (auto simp: well_formed_pair_def dest: list.set_sel(2))
    from dr nv Quoted have "drop s inp = n @ CHR ''='' # CHR 0x22 # v @ CHR 0x22 # rest"
      by (simp add: pair_text_def)
    then have "ParsePairs_round L inp ci s =
        Stores (s + length n + length v + 4) (if ci then ToLower L n else n) v"
      using n v rest by (rule round_quoted)
    then show ?thesis
      by (simp add: nv Quoted pair_text_def stored_key_def)
  qed
qed

lemma loop_pair:
  assumes wf: "well_formed_pair nv"
    and rest: "rest = [] \<or> (\<exists>t. rest = CHR '';'' # t \<and> t \<noteq> [])"
  shows "ParsePairs_loop L (pre @ pair_text nv @ rest) ci (length pre) pairs =
    ParsePairs_loop L (pre @ pair_text nv @ rest) ci (length pre + length (pair_text nv) + 1)
      (Some ((case pairs of None \<Rightarrow> Map.empty | Some m \<Rightarrow> m)
         (stored_key L ci (fst nv) \<mapsto> written_value (snd nv))))"
proof -
  let ?inp = "pre @ pair_text nv @ rest"
  have dr: "drop (length pre) ?inp = pair_text nv @ rest"
    by simp
  have r: "ParsePairs_round L ?inp ci (length pre) =
      Stores (length pre + length (pair_text nv) + 1) (stored_key L ci (fst nv))
        (written_value (snd nv))"
    using wf rest dr by (rule round_pair)
  have lt: "length pre < length ?inp"
    using pair_text_nonempty [OF wf] by simp
  show ?thesis
    by (rule ParsePairs_loop_Stores [OF lt r])
qed

lemma map_add_snoc: "m ++ map_of (xs @ [(k, v)]) = m(k \<mapsto> v) ++ map_of xs"
  by (rule ext) (simp add: map_add_def split: option.split)

lemma loop_pairs:
  assumes "kvs \<noteq> []" "\<forall>nv\<in>set kvs. well_formed_pair nv"
  shows "ParsePairs_loop L (pre @ pairs_text kvs) ci (length pre) pairs =
    Inr (Some ((case pairs of None \<Rightarrow> Map.empty | Some m \<Rightarrow> m) ++
               map_of (rev (map (stored_pair L ci) kvs))), None)"
  using assms
proof (induction kvs arbitrary: pre pairs)
  case Nil
  then show ?case by simp
next
  case (Cons nv kvs)
  from Cons.prems have wf: "well_formed_pair nv"
    by simp
  let ?m = "case pairs of None \<Rightarrow> Map.empty | Some m \<Rightarrow> m"
  let ?k = "stored_key L ci (fst nv)"
  let ?v = "written_value (snd nv)"
  have sp: "stored_pair L ci nv = (?k, ?v)"
    by (simp add: stored_pair_def)
  show ?case
  proof (cases "kvs = []")
    case True
    have "ParsePairs_loop L (pre @ pair_text nv @ []) ci (length pre) pairs =
      ParsePairs_loop L (pre @ pair_text nv @ []) ci (length pre + length (pair_text nv) + 1)
        (Some (?m(?k \<mapsto> ?v)))"
      using wf by (rule loop_pair) simp
    also have "\<dots> = Inr (Some (?m(?k \<mapsto> ?v)), None)"
      by (rule ParsePairs_loop_end) simp
    finally show ?thesis
      by (simp add: True pairs_text_single sp map_add_def fun_eq_iff)
  next
    case False
    then obtain nv' kvs' where kvs: "kvs = nv' # kvs'"
      by (cases kvs) auto
    let ?rest = "pairs_text kvs"
    let ?pre' = "pre @ pair_text nv @ '';''"
    from Cons.prems kvs have "well_formed_pair nv'"
      by simp
    then have ne: "?rest \<noteq> []"
      unfolding kvs by (rule pairs_text_nonempty)
    have all: "\<forall>nv\<in>set kvs. well_formed_pair nv"
      using Cons.prems by simp
    have "ParsePairs_loop L (pre @ pair_text nv @ (CHR '';'' # ?rest)) ci (length pre) pairs =
      ParsePairs_loop L (pre @ pair_text nv @ (CHR '';'' # ?rest)) ci
        (length pre + length (pair_text nv) + 1) (Some (?m(?k \<mapsto> ?v)))"
      using wf by (rule loop_pair) (use ne in simp)
    also have "\<dots> = ParsePairs_loop L (?pre' @ ?rest) ci (length ?pre') (Some (?m(?k \<mapsto> ?v)))"
      by (simp add: add.assoc)
    also have "\<dots> = Inr (Some ((case Some (?m(?k \<mapsto> ?v)) of None \<Rightarrow> Map.empty | Some m \<Rightarrow> m) ++
        map_of (rev (map (stored_pair L ci) kvs))), None)"
      by (rule Cons.IH [OF False all])
    also have "\<dots> = Inr (Some (?m(?k \<mapsto> ?v) ++ map_of (rev (map (stored_pair L ci) kvs))), None)"
      by (simp only: option.case)
    finally have "ParsePairs_loop L (pre @ pair_text nv @ (CHR '';'' # ?rest)) ci (length pre) pairs =
      Inr (Some (?m(?k \<mapsto> ?v) ++ map_of (rev (map (stored_pair L ci) kvs))), None)" .
    moreover have "pairs_text (nv # kvs) = pair_text nv @ (CHR '';'' # ?rest)"
      by (simp add: kvs pairs_text_Cons)
    ultimately show ?thesis
      by (simp add: sp map_add_snoc)
  qed
qed

text \<open>
  C7, amended: a duplicate name is not an error, the later pair overwrites the earlier
  one. For every input that is a list of well-formed pairs, bare or quoted, with names
  repeated or not, \<open>ParsePairs\<close> returns no error and the map that holds, for each name
  (lower-cased when \<open>ci\<close>), the value of the last pair of that name: \<open>map_of\<close> looks a
  key up from the front, so in the reversed list it finds the last pair. The same holds
  wherever the loop stands at the start of such a list (after any prefix \<open>pre\<close>, with any
  map so far): the pairs are added to the map, each over what the map held for its name.
\<close>

theorem ParsePairs_last_wins:
  assumes "kvs \<noteq> []" "\<forall>nv\<in>set kvs. well_formed_pair nv"
  shows "ParsePairs L (pairs_text kvs) ci =
           Inr (Some (map_of (rev (map (stored_pair L ci) kvs))), None) \<and>
         ParsePairs_loop L (pre @ pairs_text kvs) ci (length pre) pairs =
           Inr (Some ((case pairs of None \<Rightarrow> Map.empty | Some m \<Rightarrow> m) ++
                  map_of (rev (map (stored_pair L ci) kvs))), None)"
  using loop_pairs [OF assms, of L "[]" ci None] loop_pairs [OF assms, of L pre ci pairs]
  by (simp add: ParsePairs_def)

theorem ParsePairs_last_wins_witness:
  \<open>ParsePairs sample_lib ''A=1;b="2;";a=3'' True =
     Inr (Some [''a'' \<mapsto> ''1'', ''b'' \<mapsto> ''2;'', ''a'' \<mapsto> ''3''], None) \<and>
   [''a'' \<mapsto> ''1'', ''b'' \<mapsto> ''2;'', ''a'' \<mapsto> ''3''] ''a'' = Some ''3'' \<and>
   ParsePairs_loop sample_lib ''x=0;a="3"'' False 4 (Some [''a'' \<mapsto> ''1'', ''x'' \<mapsto> ''0'']) =
     Inr (Some [''a'' \<mapsto> ''1'', ''x'' \<mapsto> ''0'', ''a'' \<mapsto> ''3''], None)\<close>
proof -
  let ?kvs = "[(''A'', Bare ''1''), (''b'', Quoted ''2;''), (''a'', Bare ''3'')]"
  let ?one = "[(''a'', Quoted ''3'')]"
  have t: \<open>pairs_text ?kvs = ''A=1;b="2;";a=3''\<close> \<open>pairs_text ?one = ''a="3"''\<close>
    by (simp_all add: pairs_text_def pair_text_def)
  have wf: "?kvs \<noteq> []" "\<forall>nv\<in>set ?kvs. well_formed_pair nv"
    "?one \<noteq> []" "\<forall>nv\<in>set ?one. well_formed_pair nv"
    by (simp_all add: well_formed_pair_def)
  have 1: \<open>ParsePairs sample_lib ''A=1;b="2;";a=3'' True =
     Inr (Some [''a'' \<mapsto> ''1'', ''b'' \<mapsto> ''2;'', ''a'' \<mapsto> ''3''], None)\<close>
    using ParsePairs_last_wins [OF wf(1,2), of sample_lib True, THEN conjunct1]
    by (simp add: t stored_pair_def stored_key_def sample_defs)
  have 2: \<open>ParsePairs_loop sample_lib (''x=0;'' @ ''a="3"'') False (length ''x=0;'')
      (Some [''a'' \<mapsto> ''1'', ''x'' \<mapsto> ''0'']) =
     Inr (Some ([''a'' \<mapsto> ''1'', ''x'' \<mapsto> ''0''] ++ [''a'' \<mapsto> ''3'']), None)\<close>
    using ParsePairs_last_wins [OF wf(3,4), of sample_lib False "''x=0;''"
        "Some [''a'' \<mapsto> ''1'', ''x'' \<mapsto> ''0'']", THEN conjunct2]
    by (simp add: t stored_pair_def stored_key_def)
  have 3: "[''a'' \<mapsto> ''1'', ''x'' \<mapsto> ''0''] ++ [''a'' \<mapsto> ''3''] =
      [''a'' \<mapsto> ''1'', ''x'' \<mapsto> ''0'', ''a'' \<mapsto> ''3'']"
    by simp
  from 1 2 show ?thesis
    unfolding 3 by (simp add: eval_nat_numeral)
qed

subsection \<open>Results and failures\<close>

text \<open>
  C8. The three results the claim lists are the code's. Its last part, that every failure
  is one of the six error returns, is not: when the opening double quote of a value is the
  last byte of the input, \<open>ve\<close> starts at \<open>vs + 2 = len(text) + 1\<close>, no error return is
  taken, and \<open>text[vs:ve]\<close> panics with slice bounds out of range.
\<close>

theorem ParsePairs_results_and_panic:
  \<open>ParsePairs L ''a=1;b=2'' False = Inr (Some [''a'' \<mapsto> ''1'', ''b'' \<mapsto> ''2''], None) \<and>
   ParsePairs L ''a='' False = Inr (None, Some (EmptyAttributeValue 2)) \<and>
   ParsePairs L '''' False = Inr (None, None) \<and>
   ParsePairs L ''a="'' False = Inl SliceBounds\<close>
  by (simp add: ParsePairs_eval)

text \<open>The six error returns, each at an input that takes it.\<close>

lemma ParsePairs_error_returns:
  \<open>ParsePairs L '';a'' False = Inr (None, Some (EmptyAttributeName 0))\<close>
  \<open>ParsePairs L ''a'' False = Inr (None, Some NoEqualsBeforeEnd)\<close>
  \<open>ParsePairs L ''a;'' False = Inr (None, Some (UnexpectedSemicolon 1))\<close>
  \<open>ParsePairs L ''a="x"y'' False = Inr (None, Some (TrailingDataAfterQuoted 5))\<close>
  \<open>ParsePairs L ''a=;b=1'' False = Inr (None, Some (EmptyAttributeValue 2))\<close>
  \<open>ParsePairs L ''a=1;'' False = Inr (None, Some (TrailingSemicolon 4))\<close>
  by (simp_all add: ParsePairs_eval)

subsection \<open>Unterminated quoted values\<close>

text \<open>
  C10. The claim: whenever a value opens with a double quote and no closing quote
  follows before the end of the input, \<open>ParsePairs\<close> reports no error and succeeds, with
  the bytes after the opening quote as the value. The code does so for \<open>a="xy\<close>. When the
  opening quote is the last byte of the input, as in \<open>for="\<close>, it neither succeeds nor
  returns an error: \<open>text[vs:ve]\<close> panics. The unquoted path returns
  \<open>empty attribute value\<close> for the empty value of \<open>for=\<close>.
\<close>

theorem ParsePairs_unterminated_quote_panics:
  \<open>ParsePairs L ''a="xy'' False = Inr (Some [''a'' \<mapsto> ''xy''], None) \<and>
   ParsePairs L ''for="'' True = Inl SliceBounds \<and>
   ParsePairs L ''for='' True = Inr (None, Some (EmptyAttributeValue 4))\<close>
  by (simp add: ParsePairs_eval)

text \<open>
  Where at least one byte follows the opening quote, and no other double quote: the name
  is stored (lower-cased when \<open>ci\<close>) with all the bytes after the opening quote, up to the
  end of the input. This holds wherever the loop stands at the start of that pair (after
  any prefix \<open>pre\<close>, with any map so far), and so for an input that is that pair alone.
\<close>

lemma ParsePairs_unterminated_quote:
  assumes "n \<noteq> []" "\<forall>c\<in>set n. c \<noteq> CHR ''='' \<and> c \<noteq> CHR '';''"
    and "v \<noteq> []" "CHR 0x22 \<notin> set v"
  shows "ParsePairs_loop L (pre @ n @ CHR ''='' # CHR 0x22 # v) ci (length pre) pairs =
           Inr (Some ((case pairs of None \<Rightarrow> Map.empty | Some m \<Rightarrow> m)
                  ((if ci then ToLower L n else n) \<mapsto> v)), None) \<and>
         ParsePairs L (n @ CHR ''='' # CHR 0x22 # v) ci =
           Inr (Some [(if ci then ToLower L n else n) \<mapsto> v], None)"
proof -
  have loop: "ParsePairs_loop L inp ci s pairs =
           Inr (Some ((case pairs of None \<Rightarrow> Map.empty | Some m \<Rightarrow> m)
                  ((if ci then ToLower L n else n) \<mapsto> v)), None)"
    if dr: "drop s inp = n @ CHR ''='' # CHR 0x22 # v" for inp s pairs
  proof -
    have tl: "CHR 0x22 \<notin> set (tl v)"
      using assms(3,4) by (cases v) auto
    have r: "ParsePairs_round L inp ci s =
        Stores (length inp + 2) (if ci then ToLower L n else n) v"
      using dr assms(1,2,3) tl by (rule round_unterminated_quote)
    have "s < length inp"
      using arg_cong [OF dr, of length] by (cases "s < length inp") simp_all
    then show ?thesis
      by (simp add: ParsePairs_loop_Stores [OF _ r] ParsePairs_loop_end)
  qed
  show ?thesis
    by (simp add: loop ParsePairs_def)
qed


lemma ParsePairs_unterminated_quote_example:
  \<open>ParsePairs sample_lib ''a="xy'' False = Inr (Some [''a'' \<mapsto> ''xy''], None) \<and>
   ParsePairs_loop sample_lib ''b=1;a="xy'' False 4 (Some [''b'' \<mapsto> ''1'']) =
     Inr (Some [''b'' \<mapsto> ''1'', ''a'' \<mapsto> ''xy''], None)\<close>
  using ParsePairs_unterminated_quote
    [of "''a''" "''xy''" sample_lib "''b=1;''" False "Some [''b'' \<mapsto> ''1'']"]
  by (simp add: eval_nat_numeral)

section \<open>Properties of \<open>ClientAddr\<close>\<close>

text \<open>
  As long as \<open>ParsePairs\<close> returns on every value of the \<open>Forwarded\<close> header,
  \<open>ClientAddr\<close> is the address that the order of priority gives.
\<close>

lemma ParsePairs_loop_error_nil:
  "ParsePairs_loop L inp ci s pairs = Inr (m, Some err) \<Longrightarrow> m = None"
proof (induction L inp ci s pairs rule: ParsePairs_loop.induct)
  case (1 L inp ci s pairs)
  show ?case
  proof (cases "s < length inp")
    case False
    with "1.prems" show ?thesis
      by (subst (asm) ParsePairs_loop.simps) simp
  next
    case True
    show ?thesis
    proof (cases "ParsePairs_round L inp ci s")
      case (Panics p)
      with True "1.prems" show ?thesis
        by (subst (asm) ParsePairs_loop.simps) simp
    next
      case (Returns e)
      with True "1.prems" show ?thesis
        by (subst (asm) ParsePairs_loop.simps) simp
    next
      case (Stores s' k v)
      from "1.prems" True Stores have
        "ParsePairs_loop L inp ci s'
           (Some ((case pairs of None \<Rightarrow> Map.empty | Some m \<Rightarrow> m)(k \<mapsto> v))) = Inr (m, Some err)"
        by (subst (asm) ParsePairs_loop.simps) simp
      with "1.IH" [OF True Stores] show ?thesis
        by simp
    qed
  qed
qed

lemma lookup_for:
  assumes "ParsePairs L h True = Inr (pairs, e)"
  shows "lookup pairs ''for'' = forwarded_for L h"
proof (cases e)
  case None
  with assms show ?thesis
    by (simp add: forwarded_for_def lookup_def split: option.splits)
next
  case (Some err)
  with assms have "pairs = None"
    unfolding ParsePairs_def by (intro ParsePairs_loop_error_nil) simp
  with assms Some show ?thesis
    by (simp add: forwarded_for_def lookup_def)
qed

lemma Forwarded_loop_eq:
  assumes "\<forall>h\<in>set hs. \<exists>res. ParsePairs L h True = Inr res"
  shows "Forwarded_loop L hs =
    Inr (case filter (\<lambda>f. f \<noteq> '''') (map (forwarded_for L) hs) of [] \<Rightarrow> None | f # _ \<Rightarrow> Some f)"
  using assms
proof (induction hs)
  case Nil
  show ?case by simp
next
  case (Cons h hs)
  from Cons.prems obtain pairs e where p: "ParsePairs L h True = Inr (pairs, e)"
    by fastforce
  from Cons have IH: "Forwarded_loop L hs =
    Inr (case filter (\<lambda>f. f \<noteq> '''') (map (forwarded_for L) hs) of [] \<Rightarrow> None | f # _ \<Rightarrow> Some f)"
    by simp
  show ?case
    by (simp add: p lookup_for [OF p] IH)
qed

lemma SplitN2_first: "SplitN2 x sep ! 0 = takeWhile (\<lambda>c. c \<noteq> sep) x"
proof -
  have "x = takeWhile (\<lambda>c. c \<noteq> sep) x" if "sep \<notin> set x"
    using that by (induction x) auto
  then show ?thesis
    by (simp add: SplitN2_def)
qed

lemma XForwardedFor_loop_eq:
  "XForwardedFor_loop L xs =
    (case xs of [] \<Rightarrow> '''' | x # _ \<Rightarrow> TrimSpace L (takeWhile (\<lambda>c. c \<noteq> CHR '','') x))"
  by (cases xs) (simp_all add: SplitN2_first Let_def, simp add: SplitN2_def)

lemma ClientAddr_priority:
  assumes "\<forall>h\<in>set (values_of (Header r) ''Forwarded''). \<exists>res. ParsePairs L h True = Inr res"
  shows "ClientAddr L r = Inr (ClientAddr_by_priority L r)"
proof (cases "filter (\<lambda>f. f \<noteq> '''') (map (forwarded_for L) (values_of (Header r) ''Forwarded''))")
  case Nil
  then show ?thesis
    by (simp add: ClientAddr_def FirstForwardedFor_def Forwarded_loop_eq [OF assms]
        XForwardedFor_loop_eq ClientAddr_by_priority_def Let_def split: list.splits)
next
  case (Cons f fs)
  then have "f \<in> set (filter (\<lambda>f. f \<noteq> '''') (map (forwarded_for L) (values_of (Header r) ''Forwarded'')))"
    by simp
  then have "f \<noteq> ''''"
    by simp
  with Cons show ?thesis
    by (simp add: ClientAddr_def FirstForwardedFor_def Forwarded_loop_eq [OF assms]
        ClientAddr_by_priority_def)
qed

lemma ClientAddr_priority_example:
  \<open>ClientAddr sample_lib (sample_Request
      [''Forwarded'' \<mapsto> [''for=203.0.113.5''], ''X-Forwarded-For'' \<mapsto> [''198.51.100.7, 10.0.0.1''] ]) =
    Inr ''203.0.113.5''\<close>
  \<open>ClientAddr sample_lib (sample_Request
      [''Forwarded'' \<mapsto> [''by=10.0.0.1;''], ''X-Forwarded-For'' \<mapsto> ['' 198.51.100.7 , 10.0.0.1''] ]) =
    Inr ''198.51.100.7''\<close>
  \<open>ClientAddr sample_lib (sample_Request Map.empty) = Inr ''192.0.2.1:4711''\<close>
  by (simp_all add: ParsePairs_eval ClientAddr_eval sample_defs)

text \<open>
  C9. The claim: for every request, \<open>ClientAddr\<close> follows the order of priority, and a
  malformed \<open>Forwarded\<close> header never aborts it. The code: on the \<open>Forwarded\<close> value
  \<open>for="\<close> the call of \<open>ParsePairs\<close> panics, and so does \<open>ClientAddr\<close>, although the
  request has an \<open>X-Forwarded-For\<close> header and a remote address to fall back to.
\<close>

theorem ClientAddr_panics_on_malformed_Forwarded:
  \<open>ClientAddr L (sample_Request
      [''Forwarded'' \<mapsto> [''for="''], ''X-Forwarded-For'' \<mapsto> [''198.51.100.7''] ]) =
    Inl SliceBounds\<close>
  by (simp add: ParsePairs_eval ClientAddr_eval sample_Request_def)

section \<open>Properties of \<open>Format\<close>\<close>

subsection \<open>Panics\<close>

lemma index_Inr: "i < length s \<Longrightarrow> index s i = Inr (s ! i)"
  by (simp add: index_def)

lemma slice_of_Inr:
  "lo \<le> hi \<Longrightarrow> hi \<le> length s \<Longrightarrow> slice_of s lo hi = Inr (take (hi - lo) (drop lo s))"
  by (simp add: slice_of_def)

lemma Format_param_no_Fails:
  "ParsePairs L (Header_Get L (Header (Request r)) ''Cookie'') False = Inr ck \<Longrightarrow>
   Format_param L r key c j \<noteq> Fails p"
  by (cases ck) (simp add: Format_param_def)

lemma Format_braces_no_Fails:
  assumes "i < length format"
    and "ParsePairs L (Header_Get L (Header (Request r)) ''Cookie'') False = Inr ck"
  shows "Format_braces L r format i \<noteq> Fails p"
proof -
  define j where "j = scan (\<lambda>c. c = CHR ''}'') format (i + 1)"
  have lo: "i + 1 \<le> j"
    unfolding j_def by (rule scan_ge)
  have hi: "j \<le> length format"
    unfolding j_def using assms(1) by (intro scan_le) simp
  have rest: "slice_of format i (length format) = Inr (drop i format)"
    using assms(1) by (simp add: slice_of_def)
  have key: "slice_of format (i + 1) j = Inr (take (j - (i + 1)) (drop (i + 1) format))"
    using lo hi by (rule slice_of_Inr)
  have c: "index format (j + 1) = Inr (format ! (j + 1))" if "j \<noteq> length format" "j + 1 \<noteq> length format"
    using that hi by (intro index_Inr) simp
  show ?thesis
    unfolding Format_braces_def Let_def j_def [symmetric]
    using rest key c Format_param_no_Fails [OF assms(2)] by simp
qed

lemma Format_directive_no_Fails:
  assumes "i < length format"
    and "URL (Request r) = Some u"
    and "ClientAddr L (Request r) = Inr a"
    and "ParsePairs L (Header_Get L (Header (Request r)) ''Cookie'') False = Inr ck"
  shows "Format_directive L r format i c \<noteq> Fails p"
  using assms(2,3) Format_braces_no_Fails [OF assms(1,4)]
  by (simp add: Format_directive_def)

lemma Format_round_no_Fails:
  assumes "i < length format"
    and "URL (Request r) = Some u"
    and "ClientAddr L (Request r) = Inr a"
    and "ParsePairs L (Header_Get L (Header (Request r)) ''Cookie'') False = Inr ck"
  shows "Format_round L r format i \<noteq> Fails p"
proof (cases "i + 1 < length format")
  case True
  then show ?thesis
    using assms(1) Format_directive_no_Fails [OF True assms(2,3,4)]
    by (simp add: Format_round_def index_def Let_def)
next
  case False
  then show ?thesis
    using assms(1) by (simp add: Format_round_def index_def Let_def)
qed

lemma Format_loop_returns:
  assumes "URL (Request r) = Some u"
    and "ClientAddr L (Request r) = Inr a"
    and "ParsePairs L (Header_Get L (Header (Request r)) ''Cookie'') False = Inr ck"
  shows "\<exists>out. Format_loop L r format i b = Inr out"
  using assms
proof (induction L r format i b rule: Format_loop.induct)
  case (1 L r format i b)
  show ?case
  proof (cases "i < length format")
    case False
    then show ?thesis
      by (subst Format_loop.simps) simp
  next
    case True
    show ?thesis
    proof (cases "Format_round L r format i")
      case (Fails p)
      with Format_round_no_Fails [OF True "1.prems", of p] show ?thesis
        by simp
    next
      case (Finish s)
      with True show ?thesis
        by (subst Format_loop.simps) simp
    next
      case (Emit s i')
      from "1.IH" [OF True Emit "1.prems"] obtain out where
        "Format_loop L r format (i' + 1) (b @ s) = Inr out" ..
      with True Emit show ?thesis
        by (subst Format_loop.simps) simp
    qed
  qed
qed

lemma Format_loop_Emit:
  "i < length format \<Longrightarrow> Format_round L r format i = Emit s i' \<Longrightarrow>
   Format_loop L r format i b = Format_loop L r format (i' + 1) (b @ s)"
  by (subst Format_loop.simps) simp

lemma Format_loop_Finish:
  "i < length format \<Longrightarrow> Format_round L r format i = Finish s \<Longrightarrow>
   Format_loop L r format i b = Inr (b @ s)"
  by (subst Format_loop.simps) simp

lemma Format_lone_percent:
  assumes "drop i format = ''%''"
  shows "Format_loop L r format i b = Inr (b @ ''%'')"
proof -
  from assms have at: "i < length format \<and> format ! i = CHR ''%'' \<and> drop (Suc i) format = []"
    by (rule drop_eq_ConsD)
  then have "Format_round L r format i = Finish ''%''"
    by (simp add: Format_round_def index_def)
  with at show ?thesis
    by (simp add: Format_loop_Finish)
qed

lemma Format_directive_at:
  assumes "drop i format = CHR ''%'' # c # rest"
  shows "i < length format \<and> Format_round L r format i = Format_directive L r format (i + 1) c"
proof -
  from assms have at: "i < length format \<and> format ! i = CHR ''%'' \<and> drop (Suc i) format = c # rest"
    by (rule drop_eq_ConsD)
  then have "Suc i < length format \<and> format ! Suc i = c \<and> drop (Suc (Suc i)) format = rest"
    by (intro drop_eq_ConsD) simp
  with at show ?thesis
    by (simp add: Format_round_def index_def)
qed

lemma Format_unknown_directive:
  assumes "drop i format = CHR ''%'' # c # rest" and "c \<notin> set ''%BDHTUamqrstuv{''"
  shows "Format_loop L r format i b = Format_loop L r format (i + 2) (b @ [CHR ''%'', c])"
proof -
  from assms(2) have "Format_directive L r format (i + 1) c = Emit [CHR ''%'', c] (i + 1)"
    by (simp add: Format_directive_def)
  with Format_directive_at [OF assms(1), of L r] show ?thesis
    by (simp add: Format_loop_Emit)
qed

subsection \<open>Braces\<close>

lemma scan_brace:
  assumes "drop j format = key @ rest" "CHR ''}'' \<notin> set key" "rest = [] \<or> hd rest = CHR ''}''"
  shows "scan (\<lambda>c. c = CHR ''}'') format j = j + length key"
proof -
  have "\<forall>c\<in>set key. \<not> c = CHR ''}''"
    using assms(2) by auto
  with assms(1) show ?thesis
    by (rule scan_skip) (use assms(3) in simp)
qed

lemma Format_braces_unterminated:
  assumes "drop i format = CHR ''{'' # key @ rest" "CHR ''}'' \<notin> set key" "rest = [] \<or> rest = ''}''"
  shows "Format_braces L r format i = Finish (CHR ''%'' # CHR ''{'' # key @ rest)"
proof -
  from assms(1) have at: "i < length format \<and> format ! i = CHR ''{'' \<and> drop (Suc i) format = key @ rest"
    by (rule drop_eq_ConsD)
  then have d: "drop (i + 1) format = key @ rest"
    by simp
  have len: "length format = i + 1 + length key + length rest"
    using arg_cong [OF assms(1), of length] by simp
  have j: "scan (\<lambda>c. c = CHR ''}'') format (i + 1) = i + 1 + length key"
    using d assms(2) by (rule scan_brace) (use assms(3) in auto)
  have whole: "slice_of format i (length format) = Inr (CHR ''{'' # key @ rest)"
    using at assms(1) len by (simp add: slice_of_def)
  have key: "slice_of format (i + 1) (i + 1 + length key) = Inr key"
    using d len by (simp add: slice_of_def)
  from assms(3) show ?thesis
  proof
    assume "rest = []"
    with len have "i + 1 + length key = length format"
      by simp
    then show ?thesis
      unfolding Format_braces_def Let_def j using whole by simp
  next
    assume "rest = ''}''"
    with len have "i + 1 + length key \<noteq> length format" "i + 1 + length key + 1 = length format"
      by simp_all
    then show ?thesis
      unfolding Format_braces_def Let_def j using whole key by simp
  qed
qed

lemma Format_braces_key:
  assumes "drop i format = CHR ''{'' # key @ CHR ''}'' # c # rest" "CHR ''}'' \<notin> set key"
  shows "Format_braces L r format i = Format_param L r key c (i + length key + 2)"
proof -
  from assms(1) have at: "i < length format \<and> format ! i = CHR ''{'' \<and>
      drop (Suc i) format = key @ CHR ''}'' # c # rest"
    by (rule drop_eq_ConsD)
  then have d: "drop (i + 1) format = key @ CHR ''}'' # c # rest"
    by simp
  have len: "length format = i + 1 + length key + 2 + length rest"
    using arg_cong [OF assms(1), of length] by simp
  have j: "scan (\<lambda>c. c = CHR ''}'') format (i + 1) = i + 1 + length key"
    using d assms(2) by (rule scan_brace) simp
  have key: "slice_of format (i + 1) (i + 1 + length key) = Inr key"
    using d len by (simp add: slice_of_def)
  from d have "drop (i + 1 + length key) format = CHR ''}'' # c # rest"
    by (rule drop_add_eq)
  then have "drop (Suc (i + 1 + length key)) format = c # rest"
    by (auto dest: drop_eq_ConsD)
  then have "Suc (i + 1 + length key) < length format \<and> format ! Suc (i + 1 + length key) = c"
    by (auto dest: drop_eq_ConsD)
  then have c: "index format (i + 1 + length key + 1) = Inr c"
    by (simp add: index_def)
  have ne: "i + 1 + length key \<noteq> length format" "i + 1 + length key + 1 \<noteq> length format"
    using len by simp_all
  have "Format_braces L r format i = Format_param L r key c (i + 1 + length key + 1)"
    unfolding Format_braces_def Let_def j using key c ne by simp
  then show ?thesis
    by (simp add: add.commute add.left_commute)
qed

lemma Format_unterminated:
  assumes "drop i format = ''%{'' @ key @ rest" "CHR ''}'' \<notin> set key" "rest = [] \<or> rest = ''}''"
  shows "Format_loop L r format i b = Inr (b @ ''%{'' @ key @ rest)"
proof -
  from assms(1) have d: "drop i format = CHR ''%'' # CHR ''{'' # key @ rest"
    by simp
  then have "drop (i + 1) format = CHR ''{'' # key @ rest"
    by (auto dest: drop_eq_ConsD)
  then have "Format_braces L r format (i + 1) = Finish (CHR ''%'' # CHR ''{'' # key @ rest)"
    using assms(2,3) by (rule Format_braces_unterminated)
  with Format_directive_at [OF d, of L r] show ?thesis
    by (simp add: Format_directive_def Format_loop_Finish)
qed

lemma Format_unknown_unit:
  assumes "drop i format = ''%{'' @ key @ ''}T'' @ rest" "CHR ''}'' \<notin> set key"
    and "key \<noteq> ''ms''" "key \<noteq> ''us''" "key \<noteq> ''s''"
  shows "Format_loop L r format i b =
    Format_loop L r format (i + length key + 4) (b @ ''%{'' @ key @ ''}T'')"
proof -
  from assms(1) have d: "drop i format = CHR ''%'' # CHR ''{'' # (key @ ''}T'' @ rest)"
    by simp
  then have "drop (i + 1) format = CHR ''{'' # key @ CHR ''}'' # CHR ''T'' # rest"
    by (auto dest: drop_eq_ConsD)
  then have "Format_braces L r format (i + 1) = Format_param L r key (CHR ''T'') (i + 1 + length key + 2)"
    using assms(2) by (rule Format_braces_key)
  also have "\<dots> = Emit (''%{'' @ key @ ''}T'') (i + 1 + length key + 2)"
    using assms(3-5) by (simp add: Format_param_def)
  finally have rd: "Format_round L r format i = Emit (''%{'' @ key @ ''}T'') (i + 1 + length key + 2)"
    using Format_directive_at [OF d, of L r] by (simp add: Format_directive_def)
  have lt: "i < length format"
    using Format_directive_at [OF d, of L r] by simp
  have e: "i + length key + 4 = i + 1 + length key + 2 + 1"
    by simp
  show ?thesis
    unfolding e by (rule Format_loop_Emit [OF lt rd])
qed

lemma Format_unknown_param:
  assumes "drop i format = ''%{'' @ key @ ''}'' @ c # rest" "CHR ''}'' \<notin> set key"
    and "c \<notin> set ''CTiot''"
  shows "Format_loop L r format i b =
    Format_loop L r format (i + length key + 4) (b @ ''%{'' @ key @ ''}'' @ [c])"
proof -
  from assms(1) have d: "drop i format = CHR ''%'' # CHR ''{'' # (key @ CHR ''}'' # c # rest)"
    by simp
  then have "drop (i + 1) format = CHR ''{'' # key @ CHR ''}'' # c # rest"
    by (auto dest: drop_eq_ConsD)
  then have "Format_braces L r format (i + 1) = Format_param L r key c (i + 1 + length key + 2)"
    using assms(2) by (rule Format_braces_key)
  also have "\<dots> = Emit (''%{'' @ key @ ''}'' @ [c]) (i + 1 + length key + 2)"
    using assms(3) by (simp add: Format_param_def)
  finally have rd: "Format_round L r format i =
      Emit (''%{'' @ key @ ''}'' @ [c]) (i + 1 + length key + 2)"
    using Format_directive_at [OF d, of L r] by (simp add: Format_directive_def)
  have lt: "i < length format"
    using Format_directive_at [OF d, of L r] by simp
  have e: "i + length key + 4 = i + 1 + length key + 2 + 1"
    by simp
  show ?thesis
    unfolding e by (rule Format_loop_Emit [OF lt rd])
qed

lemma Format_literal:
  assumes "drop i format = c # rest" "c \<noteq> CHR ''%''"
  shows "Format_loop L r format i b = Format_loop L r format (i + 1) (b @ [c])"
proof -
  from assms(1) have at: "i < length format \<and> format ! i = c \<and> drop (Suc i) format = rest"
    by (rule drop_eq_ConsD)
  with assms(2) have "Format_round L r format i = Emit [c] i"
    by (simp add: Format_round_def index_def)
  with at show ?thesis
    by (simp add: Format_loop_Emit)
qed

subsection \<open>Totality and pass-through\<close>

text \<open>
  C5, as claimed: no input makes \<open>Format\<close> fail. On a \<open>Record\<close> whose \<open>URL\<close> is nil
  (the zero \<open>Record\<close>), the directive \<open>%U\<close> dereferences the nil pointer.
\<close>

theorem Format_nil_URL_counterexample:
  "Format sample_lib zero_Record ''%U'' = Inl NilDereference"
  by (simp add: Format_eval ParsePairs_eval sample_defs)

text \<open>
  C5, amended. For every \<open>Record\<close> whose \<open>URL\<close> is not nil, and for which the
  resolution of the client address and the parse of the \<open>Cookie\<close> header return,
  \<open>Format\<close> returns a string for every template. For every \<open>Record\<close>, wherever the loop
  stands in the template (at \<open>i\<close>, with \<open>b\<close> written so far): a \<open>%\<close> that ends the template
  is written as it is; \<open>%c\<close> with \<open>c\<close> no directive is written as the two bytes, and the
  loop goes on behind them; \<open>%{key\<close> with no \<open>}\<close> up to the end, and \<open>%{key}\<close> with the
  \<open>}\<close> as last byte, are written as they are, to the end of the template; \<open>%{key}T\<close>
  with a unit other than \<open>ms\<close>, \<open>us\<close>, \<open>s\<close>, and \<open>%{key}c\<close> with \<open>c\<close> none of the letters
  \<open>C\<close>, \<open>T\<close>, \<open>i\<close>, \<open>o\<close>, \<open>t\<close>, are written as they are, and the loop goes on behind them;
  a byte other than \<open>%\<close> is copied. And \<open>Format("%%") = "%"\<close>, \<open>Format("%Z") = "%Z"\<close>,
  \<open>Format("%{bad") = "%{bad"\<close>.
\<close>

theorem Format_returns_and_passes_through:
  "(URL (Request r) \<noteq> None \<and> (\<exists>a. ClientAddr L (Request r) = Inr a) \<and>
    (\<exists>ck. ParsePairs L (Header_Get L (Header (Request r)) ''Cookie'') False = Inr ck) \<longrightarrow>
      (\<exists>out. Format L r format = Inr out)) \<and>
   (drop i format = ''%'' \<longrightarrow> Format_loop L r format i b = Inr (b @ ''%'')) \<and>
   (drop i format = CHR ''%'' # c # rest \<and> c \<notin> set ''%BDHTUamqrstuv{'' \<longrightarrow>
      Format_loop L r format i b = Format_loop L r format (i + 2) (b @ [CHR ''%'', c])) \<and>
   (drop i format = ''%{'' @ key \<and> CHR ''}'' \<notin> set key \<longrightarrow>
      Format_loop L r format i b = Inr (b @ ''%{'' @ key)) \<and>
   (drop i format = ''%{'' @ key @ ''}'' \<and> CHR ''}'' \<notin> set key \<longrightarrow>
      Format_loop L r format i b = Inr (b @ ''%{'' @ key @ ''}'')) \<and>
   (drop i format = ''%{'' @ key @ ''}T'' @ rest \<and> CHR ''}'' \<notin> set key \<and>
    key \<notin> {''ms'', ''us'', ''s''} \<longrightarrow>
      Format_loop L r format i b =
        Format_loop L r format (i + length key + 4) (b @ ''%{'' @ key @ ''}T'')) \<and>
   (drop i format = ''%{'' @ key @ ''}'' @ c # rest \<and> CHR ''}'' \<notin> set key \<and>
    c \<notin> set ''CTiot'' \<longrightarrow>
      Format_loop L r format i b =
        Format_loop L r format (i + length key + 4) (b @ ''%{'' @ key @ ''}'' @ [c])) \<and>
   (drop i format = c # rest \<and> c \<noteq> CHR ''%'' \<longrightarrow>
      Format_loop L r format i b = Format_loop L r format (i + 1) (b @ [c])) \<and>
   Format L r ''%%'' = Inr ''%'' \<and>
   Format L r ''%Z'' = Inr ''%Z'' \<and>
   Format L r ''%{bad'' = Inr ''%{bad''"
proof -
  have total: "\<exists>out. Format L r format = Inr out"
    if "URL (Request r) \<noteq> None" "\<exists>a. ClientAddr L (Request r) = Inr a"
      "\<exists>ck. ParsePairs L (Header_Get L (Header (Request r)) ''Cookie'') False = Inr ck"
  proof -
    from that obtain u a ck where "URL (Request r) = Some u" "ClientAddr L (Request r) = Inr a"
      "ParsePairs L (Header_Get L (Header (Request r)) ''Cookie'') False = Inr ck"
      by auto
    then show ?thesis
      unfolding Format_def by (rule Format_loop_returns)
  qed
  have lone: "Format_loop L r format i b = Inr (b @ ''%'')" if "drop i format = ''%''"
    using that by (rule Format_lone_percent)
  have unknown: "Format_loop L r format i b = Format_loop L r format (i + 2) (b @ [CHR ''%'', c])"
    if "drop i format = CHR ''%'' # c # rest" "c \<notin> set ''%BDHTUamqrstuv{''"
    using that by (rule Format_unknown_directive)
  have open1: "Format_loop L r format i b = Inr (b @ ''%{'' @ key)"
    if "drop i format = ''%{'' @ key" "CHR ''}'' \<notin> set key"
    using Format_unterminated [of i format key "[]" L r b] that by simp
  have open2: "Format_loop L r format i b = Inr (b @ ''%{'' @ key @ ''}'')"
    if "drop i format = ''%{'' @ key @ ''}''" "CHR ''}'' \<notin> set key"
    using Format_unterminated [of i format key "''}''" L r b] that by simp
  have unit: "Format_loop L r format i b =
        Format_loop L r format (i + length key + 4) (b @ ''%{'' @ key @ ''}T'')"
    if "drop i format = ''%{'' @ key @ ''}T'' @ rest" "CHR ''}'' \<notin> set key"
      "key \<notin> {''ms'', ''us'', ''s''}"
    using Format_unknown_unit [of i format key rest L r b] that by simp
  have param: "Format_loop L r format i b =
        Format_loop L r format (i + length key + 4) (b @ ''%{'' @ key @ ''}'' @ [c])"
    if "drop i format = ''%{'' @ key @ ''}'' @ c # rest" "CHR ''}'' \<notin> set key"
      "c \<notin> set ''CTiot''"
    using that by (rule Format_unknown_param)
  have lit: "Format_loop L r format i b = Format_loop L r format (i + 1) (b @ [c])"
    if "drop i format = c # rest" "c \<noteq> CHR ''%''"
    using that by (rule Format_literal)
  have ex: "Format L r ''%%'' = Inr ''%''" "Format L r ''%Z'' = Inr ''%Z''"
    "Format L r ''%{bad'' = Inr ''%{bad''"
    by (simp_all add: Format_eval ParsePairs_eval)
  show ?thesis
    apply (intro conjI impI)
    subgoal using total by blast
    subgoal using lone by blast
    subgoal using unknown by blast
    subgoal using open1 by blast
    subgoal using open2 by blast
    subgoal using unit by blast
    subgoal using param by blast
    subgoal using lit by blast
    subgoal by (rule ex)
    subgoal by (rule ex)
    subgoal by (rule ex)
    done
qed

theorem Format_returns_and_passes_through_witness:
  \<open>(\<exists>out. Format sample_lib (sample_Record [''Cookie'' \<mapsto> [''a=1'']]) NCSALogFormat = Inr out) \<and>
   Format_loop sample_lib (sample_Record Map.empty) ''100%'' 3 ''100'' = Inr ''100%'' \<and>
   Format_loop sample_lib (sample_Record Map.empty) ''%Z.'' 0 '''' =
     Format_loop sample_lib (sample_Record Map.empty) ''%Z.'' 2 ''%Z'' \<and>
   Format_loop sample_lib (sample_Record Map.empty) ''a%{bad'' 1 ''a'' = Inr ''a%{bad'' \<and>
   Format_loop sample_lib (sample_Record Map.empty) ''a%{bad}'' 1 ''a'' = Inr ''a%{bad}'' \<and>
   Format_loop sample_lib (sample_Record Map.empty) ''%{min}T.'' 0 '''' =
     Format_loop sample_lib (sample_Record Map.empty) ''%{min}T.'' 7 ''%{min}T'' \<and>
   Format_loop sample_lib (sample_Record Map.empty) ''%{x}Z.'' 0 '''' =
     Format_loop sample_lib (sample_Record Map.empty) ''%{x}Z.'' 5 ''%{x}Z'' \<and>
   Format_loop sample_lib (sample_Record Map.empty) ''ab'' 0 '''' =
     Format_loop sample_lib (sample_Record Map.empty) ''ab'' 1 ''a'' \<and>
   Format sample_lib (sample_Record Map.empty) ''%{x}Z.'' = Inr ''%{x}Z.''\<close>
proof -
  let ?R = "sample_Record Map.empty"
  let ?C = "sample_Record [''Cookie'' \<mapsto> [''a=1'']]"
  note T = Format_returns_and_passes_through
  have 1: "URL (Request ?C) \<noteq> None \<and> (\<exists>a. ClientAddr sample_lib (Request ?C) = Inr a) \<and>
    (\<exists>ck. ParsePairs sample_lib (Header_Get sample_lib (Header (Request ?C)) ''Cookie'') False = Inr ck)"
    by (simp add: sample_defs ClientAddr_eval ParsePairs_eval Header_Get_def)
  have a: "\<exists>out. Format sample_lib ?C NCSALogFormat = Inr out"
    using 1 by (rule T [THEN conjunct1, THEN mp])
  have "drop 3 ''100%'' = ''%''"
    by simp
  then have b: "Format_loop sample_lib ?R ''100%'' 3 ''100'' = Inr (''100'' @ ''%'')"
    by (rule T [THEN conjunct2, THEN conjunct1, THEN mp])
  have "drop 0 ''%Z.'' = CHR ''%'' # CHR ''Z'' # ''.'' \<and> CHR ''Z'' \<notin> set ''%BDHTUamqrstuv{''"
    by simp
  then have c: "Format_loop sample_lib ?R ''%Z.'' 0 '''' =
     Format_loop sample_lib ?R ''%Z.'' (0 + 2) ('''' @ [CHR ''%'', CHR ''Z''])"
    by (rule T [THEN conjunct2, THEN conjunct2, THEN conjunct1, THEN mp])
  have "drop 1 ''a%{bad'' = ''%{'' @ ''bad'' \<and> CHR ''}'' \<notin> set ''bad''"
    by simp
  then have d: "Format_loop sample_lib ?R ''a%{bad'' 1 ''a'' = Inr (''a'' @ ''%{'' @ ''bad'')"
    by (rule T [THEN conjunct2, THEN conjunct2, THEN conjunct2, THEN conjunct1, THEN mp])
  have "drop 1 ''a%{bad}'' = ''%{'' @ ''bad'' @ ''}'' \<and> CHR ''}'' \<notin> set ''bad''"
    by simp
  then have e: "Format_loop sample_lib ?R ''a%{bad}'' 1 ''a'' = Inr (''a'' @ ''%{'' @ ''bad'' @ ''}'')"
    by (rule T [THEN conjunct2, THEN conjunct2, THEN conjunct2, THEN conjunct2, THEN conjunct1, THEN mp])
  have "drop 0 ''%{min}T.'' = ''%{'' @ ''min'' @ ''}T'' @ ''.'' \<and> CHR ''}'' \<notin> set ''min'' \<and>
       ''min'' \<notin> {''ms'', ''us'', ''s''}"
    by simp
  then have f: "Format_loop sample_lib ?R ''%{min}T.'' 0 '''' =
     Format_loop sample_lib ?R ''%{min}T.'' (0 + length ''min'' + 4) ('''' @ ''%{'' @ ''min'' @ ''}T'')"
    by (rule T [THEN conjunct2, THEN conjunct2, THEN conjunct2, THEN conjunct2, THEN conjunct2,
          THEN conjunct1, THEN mp])
  have "drop 0 ''%{x}Z.'' = ''%{'' @ ''x'' @ ''}'' @ CHR ''Z'' # ''.'' \<and> CHR ''}'' \<notin> set ''x'' \<and>
       CHR ''Z'' \<notin> set ''CTiot''"
    by simp
  then have g: "Format_loop sample_lib ?R ''%{x}Z.'' 0 '''' =
     Format_loop sample_lib ?R ''%{x}Z.'' (0 + length ''x'' + 4) ('''' @ ''%{'' @ ''x'' @ ''}'' @ [CHR ''Z''])"
    by (rule T [THEN conjunct2, THEN conjunct2, THEN conjunct2, THEN conjunct2, THEN conjunct2,
          THEN conjunct2, THEN conjunct1, THEN mp])
  have "drop 0 ''ab'' = CHR ''a'' # ''b'' \<and> CHR ''a'' \<noteq> CHR ''%''"
    by simp
  then have h: "Format_loop sample_lib ?R ''ab'' 0 '''' =
     Format_loop sample_lib ?R ''ab'' (0 + 1) ('''' @ [CHR ''a''])"
    by (rule T [THEN conjunct2, THEN conjunct2, THEN conjunct2, THEN conjunct2, THEN conjunct2,
          THEN conjunct2, THEN conjunct2, THEN conjunct1, THEN mp])
  have k: "Format sample_lib ?R ''%{x}Z.'' = Inr ''%{x}Z.''"
    by (simp add: Format_eval ParsePairs_eval)
  from a b c d e f g h k show ?thesis
    by (simp add: eval_nat_numeral)
qed

subsection \<open>The common log format\<close>

lemma Format_request_line:
  "URL (Request r) = Some u \<Longrightarrow>
   Format L r ''%r'' =
     Inr (Method (Request r) @ '' '' @ Proto (Request r) @ '' '' @ URL_String L u)"
  by (simp add: Format_eval ParsePairs_eval)

text \<open>
  C6. The claim: with method \<open>GET\<close>, URL \<open>/x\<close>, protocol \<open>HTTP/1.1\<close>, status 200, size
  34 and no user, \<open>CommonLogFormat\<close> renders the request line as \<open>"GET /x HTTP/1.1"\<close>.
  The code writes the method, the protocol and then the URL: \<open>"GET HTTP/1.1 /x"\<close>. The
  other fields are in the documented order, with \<open>-\<close> for the user.
\<close>

theorem Format_CommonLogFormat_request_line:
  assumes "Method (Request r) = ''GET''" "Proto (Request r) = ''HTTP/1.1''"
    and "URL (Request r) = Some u" "URL_String L u = ''/x''"
    and "User (Request r) = ''''"
    and "Header (Request r) ''Forwarded'' = None" "Header (Request r) ''X-Forwarded-For'' = None"
    and "Status_f (Response r) = 200" "Size_f (Response r) = 34"
  shows \<open>Format L r CommonLogFormat =
    Inr (RemoteAddr (Request r) @ '' - - '' @
         Time_Format L (StartTime r) ''[02/Jan/2006:15:04:05 -0700]'' @
         '' "GET HTTP/1.1 /x" 200 34'')\<close>
  using assms
  by (simp add: CommonLogFormat_def Format_eval ParsePairs_eval ClientAddr_eval)

theorem Format_CommonLogFormat_request_line_witness:
  \<open>Format sample_lib (sample_Record Map.empty) CommonLogFormat =
   Inr ''192.0.2.1:4711 - - [02/Jan/2006:15:04:05 -0700] "GET HTTP/1.1 /x" 200 34''\<close>
  using Format_CommonLogFormat_request_line
    [of "sample_Record Map.empty" "\<lparr>Path = ''/x'', RawQuery = ''''\<rparr>" sample_lib]
  by (simp add: sample_defs)

end
